theory Spec2Isabelle
  imports Main "HOL-Library.FSet"
begin

section \<open>Session admission controller\<close>

text \<open>
  The class \<open>BrowserbaseSessionLimiter\<close> of \<open>apps/cua-agent\<close> (the limiter module
  that follows \<open>examples.ts\<close> in the source file). Its fields are the fields of the
  record \<open>limiter\<close>. Three things the JavaScript keeps implicitly are made explicit:
  \<^item> \<open>Date.now()\<close> is an argument \<open>now\<close> of every entry point (one reading for each
    synchronous run of the event loop);
  \<^item> the closures returned by \<open>createLease\<close> are kept in the list \<open>leases\<close>, the
    closure variable \<open>finalized\<close> being a field of the entry; a lease is named by its
    index in that list;
  \<^item> the promise of an \<open>acquireCreateLease\<close> call is named by the number of the
    call, and \<open>resolved\<close> records which promise was resolved with which lease;
  \<^item> \<open>grantLog\<close> keeps every timestamp ever pushed on \<open>createTimestamps\<close>, also
    after the program has pruned it: it is written and never read by the model.
\<close>

definition DEFAULT_MAX_CREATES_PER_MINUTE :: int where
  "DEFAULT_MAX_CREATES_PER_MINUTE = 20"

definition DEFAULT_MAX_CONCURRENT_SESSIONS :: int where
  "DEFAULT_MAX_CONCURRENT_SESSIONS = 25"

definition CREATE_WINDOW_MS :: int where
  "CREATE_WINDOW_MS = 60000"

text \<open>
  \<open>Number.parseInt(_, 10)\<close> is a parameter: \<open>None\<close> stands for \<open>NaN\<close>. An unset
  environment variable is parsed as the empty string.
\<close>

definition readPositiveIntegerEnv :: "(string \<Rightarrow> int option) \<Rightarrow> string option \<Rightarrow> int \<Rightarrow> int" where
  "readPositiveIntegerEnv parseInt v fallback =
     (case parseInt (case v of None \<Rightarrow> [] | Some x \<Rightarrow> x) of
        None \<Rightarrow> fallback
      | Some parsed \<Rightarrow> if parsed > 0 then parsed else fallback)"

record QueueItem =
  source :: string
  resolve :: nat

record lease_closure =
  lease_source :: string
  finalized :: bool

record limiter =
  maxCreatesPerMinute :: int
  maxConcurrentSessions :: int
  createTimestamps :: "int list"
  activeSessionIds :: "string fset"
  pendingReservations :: int
  queue :: "QueueItem list"
  processTimer :: "int option"
  leases :: "lease_closure list"
  resolved :: "(nat \<times> nat) list"
  acquireCalls :: nat
  grantLog :: "int list"

text \<open>The constructor; \<open>options?.x ?? fallback\<close> takes the fallback when the option is absent.\<close>

definition newLimiter ::
  "(string \<Rightarrow> int option) \<Rightarrow> int option \<Rightarrow> int option \<Rightarrow> string option \<Rightarrow> string option \<Rightarrow> limiter" where
  "newLimiter parseInt optCreates optConcurrent envCreates envConcurrent =
     \<lparr> maxCreatesPerMinute =
         (case optCreates of Some v \<Rightarrow> v
          | None \<Rightarrow> readPositiveIntegerEnv parseInt envCreates DEFAULT_MAX_CREATES_PER_MINUTE),
       maxConcurrentSessions =
         (case optConcurrent of Some v \<Rightarrow> v
          | None \<Rightarrow> readPositiveIntegerEnv parseInt envConcurrent DEFAULT_MAX_CONCURRENT_SESSIONS),
       createTimestamps = [],
       activeSessionIds = {||},
       pendingReservations = 0,
       queue = [],
       processTimer = None,
       leases = [],
       resolved = [],
       acquireCalls = 0,
       grantLog = [] \<rparr>"

text \<open>\<open>getLimiter\<close> builds the process-wide instance with no options.\<close>

definition getLimiter :: "(string \<Rightarrow> int option) \<Rightarrow> string option \<Rightarrow> string option \<Rightarrow> limiter" where
  "getLimiter parseInt envCreates envConcurrent =
     newLimiter parseInt None None envCreates envConcurrent"

definition clearProcessTimer :: "limiter \<Rightarrow> limiter" where
  "clearProcessTimer s = s\<lparr>processTimer := None\<rparr>"

definition pruneCreateTimestamps :: "int \<Rightarrow> limiter \<Rightarrow> limiter" where
  "pruneCreateTimestamps now s =
     s\<lparr>createTimestamps := dropWhile (\<lambda>t. t \<le> now - CREATE_WINDOW_MS) (createTimestamps s)\<rparr>"

text \<open>\<open>logStats\<close> prunes the window before it prints; the printing is not modelled.\<close>

definition logStats :: "int \<Rightarrow> limiter \<Rightarrow> limiter" where
  "logStats now s = pruneCreateTimestamps now s"

definition hasConcurrentCapacity :: "limiter \<Rightarrow> bool" where
  "hasConcurrentCapacity s \<longleftrightarrow>
     int (fcard (activeSessionIds s)) + pendingReservations s < maxConcurrentSessions s"

definition hasRateCapacity :: "int \<Rightarrow> limiter \<Rightarrow> bool \<times> limiter" where
  "hasRateCapacity now s =
     (let s' = pruneCreateTimestamps now s
      in (int (length (createTimestamps s')) < maxCreatesPerMinute s', s'))"

definition canGrantNextLease :: "int \<Rightarrow> limiter \<Rightarrow> bool \<times> limiter" where
  "canGrantNextLease now s =
     (let (rate, s') = hasRateCapacity now s
      in (rate \<and> hasConcurrentCapacity s', s'))"

definition createLease :: "string \<Rightarrow> limiter \<Rightarrow> nat \<times> limiter" where
  "createLease src s =
     (length (leases s), s\<lparr>leases := leases s @ [\<lparr>lease_source = src, finalized = False\<rparr>]\<rparr>)"

text \<open>One iteration of the \<open>while\<close> loop of \<open>processQueue\<close>, after its test has passed.\<close>

definition grantHead :: "int \<Rightarrow> QueueItem \<Rightarrow> QueueItem list \<Rightarrow> limiter \<Rightarrow> limiter" where
  "grantHead now queueItem rest s =
     (let s1 = s\<lparr>queue := rest\<rparr>;
          s2 = s1\<lparr>pendingReservations := pendingReservations s1 + 1\<rparr>;
          s3 = s2\<lparr>createTimestamps := createTimestamps s2 @ [now],
                  grantLog := grantLog s2 @ [now]\<rparr>;
          s4 = logStats now s3;
          (l, s5) = createLease (source queueItem) s4
      in s5\<lparr>resolved := resolved s5 @ [(resolve queueItem, l)]\<rparr>)"

lemma queue_pruneCreateTimestamps [simp]: "queue (pruneCreateTimestamps now s) = queue s"
  by (simp add: pruneCreateTimestamps_def)

lemma queue_canGrantNextLease [simp]: "queue (snd (canGrantNextLease now s)) = queue s"
  by (simp add: canGrantNextLease_def hasRateCapacity_def Let_def)

lemma queue_grantHead [simp]: "queue (grantHead now queueItem rest s) = rest"
  by (simp add: grantHead_def createLease_def logStats_def Let_def)

function grantLoop :: "int \<Rightarrow> limiter \<Rightarrow> limiter" where
  "grantLoop now s =
     (case queue s of
        [] \<Rightarrow> s
      | queueItem # rest \<Rightarrow>
          (if fst (canGrantNextLease now s)
           then grantLoop now (grantHead now queueItem rest (snd (canGrantNextLease now s)))
           else snd (canGrantNextLease now s)))"
  by pat_completeness auto
termination
  by (relation "measure (\<lambda>(now, s). length (queue s))") auto

declare grantLoop.simps [simp del]

definition scheduleWhenRateWindowOpens :: "int \<Rightarrow> limiter \<Rightarrow> limiter" where
  "scheduleWhenRateWindowOpens now s =
     (case createTimestamps s of
        [] \<Rightarrow> s
      | t # _ \<Rightarrow>
          if queue s = [] then s
          else s\<lparr>processTimer := Some (max (t + CREATE_WINDOW_MS - now) 50)\<rparr>)"

definition processQueue :: "int \<Rightarrow> limiter \<Rightarrow> limiter" where
  "processQueue now s =
     (let s1 = clearProcessTimer s;
          s2 = pruneCreateTimestamps now s1;
          s3 = grantLoop now s2
      in if queue s3 = [] then s3
         else if hasConcurrentCapacity s3 then scheduleWhenRateWindowOpens now s3
         else s3)"

definition acquireCreateLease :: "string \<Rightarrow> int \<Rightarrow> limiter \<Rightarrow> limiter" where
  "acquireCreateLease src now s =
     (let s1 = s\<lparr>queue := queue s @ [\<lparr>source = src, resolve = acquireCalls s\<rparr>],
                  acquireCalls := Suc (acquireCalls s)\<rparr>;
          s2 = logStats now s1
      in processQueue now s2)"

definition registerActiveSession :: "string \<Rightarrow> int \<Rightarrow> limiter \<Rightarrow> limiter" where
  "registerActiveSession sessionId now s =
     (if sessionId = [] then s
      else processQueue now (s\<lparr>activeSessionIds := finsert sessionId (activeSessionIds s)\<rparr>))"

definition releaseActiveSession :: "string \<Rightarrow> int \<Rightarrow> limiter \<Rightarrow> limiter" where
  "releaseActiveSession sessionId now s =
     (if sessionId = [] then s
      else if sessionId |\<in>| activeSessionIds s
      then processQueue now (s\<lparr>activeSessionIds := activeSessionIds s |-| {|sessionId|}\<rparr>)
      else s)"

definition getStats :: "int \<Rightarrow> limiter \<Rightarrow> limiter" where
  "getStats now s = pruneCreateTimestamps now s"

text \<open>
  The closure \<open>finalize\<close> of the lease with index \<open>l\<close>. A call on an index that names
  no lease cannot happen in the program and is modelled as doing nothing.
\<close>

definition finalize :: "nat \<Rightarrow> string option \<Rightarrow> int \<Rightarrow> limiter \<Rightarrow> limiter" where
  "finalize l sessionId now s =
     (if l \<ge> length (leases s) then s
      else if finalized (leases s ! l) then s
      else
        let s1 = s\<lparr>leases := (leases s)[l := (leases s ! l)\<lparr>finalized := True\<rparr>]\<rparr>;
            s2 = (if pendingReservations s1 > 0
                  then s1\<lparr>pendingReservations := pendingReservations s1 - 1\<rparr> else s1);
            s3 = (case sessionId of
                    None \<Rightarrow> s2
                  | Some sid \<Rightarrow>
                      if sid = [] then s2
                      else s2\<lparr>activeSessionIds := finsert sid (activeSessionIds s2)\<rparr>)
        in processQueue now s3)"

definition confirmCreated :: "nat \<Rightarrow> string \<Rightarrow> int \<Rightarrow> limiter \<Rightarrow> limiter" where
  "confirmCreated l sessionId now s =
     (if l \<ge> length (leases s) then s
      else if sessionId = [] then finalize l None now s
      else finalize l (Some sessionId) now (logStats now s))"

definition cancel :: "nat \<Rightarrow> int \<Rightarrow> limiter \<Rightarrow> limiter" where
  "cancel l now s = finalize l None now s"

text \<open>The callback of the timer set by \<open>scheduleWhenRateWindowOpens\<close>; it runs only while the timer is set.\<close>

definition timerFires :: "int \<Rightarrow> limiter \<Rightarrow> limiter" where
  "timerFires now s =
     (if processTimer s = None then s
      else processQueue now (s\<lparr>processTimer := None\<rparr>))"

datatype limiter_call =
    AcquireCreateLease string
  | ConfirmCreated nat string
  | Cancel nat
  | RegisterActiveSession string
  | ReleaseActiveSession string
  | GetStats
  | TimerFires

fun limiterStep :: "limiter \<Rightarrow> int \<times> limiter_call \<Rightarrow> limiter" where
  "limiterStep s (now, AcquireCreateLease src) = acquireCreateLease src now s"
| "limiterStep s (now, ConfirmCreated l sessionId) = confirmCreated l sessionId now s"
| "limiterStep s (now, Cancel l) = cancel l now s"
| "limiterStep s (now, RegisterActiveSession sessionId) = registerActiveSession sessionId now s"
| "limiterStep s (now, ReleaseActiveSession sessionId) = releaseActiveSession sessionId now s"
| "limiterStep s (now, GetStats) = getStats now s"
| "limiterStep s (now, TimerFires) = timerFires now s"

definition limiterRun :: "limiter \<Rightarrow> (int \<times> limiter_call) list \<Rightarrow> limiter" where
  "limiterRun s calls = foldl limiterStep s calls"

fun isRegister :: "limiter_call \<Rightarrow> bool" where
  "isRegister (RegisterActiveSession _) = True"
| "isRegister _ = False"

subsection \<open>Predicates used to state the limiter's properties\<close>

text \<open>
  \<open>unfinalized\<close> counts the leases whose \<open>finalize\<close> has not run yet; \<open>limiterInv\<close>
  is the invariant of the two budgets, \<open>windowInv\<close> relates the pruned list to the
  history of grants, and \<open>config\<close> is the pair of limits read at construction.
  \<open>observable\<close> is what a caller can see of the accounting; \<open>grantedLease s p\<close> is the
  lease with which the promise \<open>p\<close> was resolved, if it was. \<open>isWaiting\<close> holds of the
  calls that neither end a lease nor touch the active set, and \<open>secondWaits\<close> describes
  a limiter of capacity one whose only tracked session blocks the request at the head
  of its queue.
\<close>

definition unfinalized :: "lease_closure list \<Rightarrow> nat" where
  "unfinalized ls = length (filter (\<lambda>c. \<not> finalized c) ls)"

definition limiterInv :: "limiter \<Rightarrow> bool" where
  "limiterInv s \<longleftrightarrow>
     int (fcard (activeSessionIds s)) + pendingReservations s \<le> maxConcurrentSessions s \<and>
     int (length (createTimestamps s)) \<le> maxCreatesPerMinute s \<and>
     pendingReservations s = int (unfinalized (leases s))"

definition inWindow :: "int \<Rightarrow> int \<Rightarrow> bool" where
  "inWindow T t \<longleftrightarrow> T - CREATE_WINDOW_MS < t"

definition windowInv :: "int \<Rightarrow> limiter \<Rightarrow> bool" where
  "windowInv T s \<longleftrightarrow>
     (\<forall>T' \<ge> T. filter (inWindow T') (grantLog s) = filter (inWindow T') (createTimestamps s))"

definition config :: "limiter \<Rightarrow> int \<times> int" where
  "config s = (maxCreatesPerMinute s, maxConcurrentSessions s)"

definition observable :: "limiter \<Rightarrow> int \<times> string fset \<times> QueueItem list" where
  "observable s = (pendingReservations s, activeSessionIds s, queue s)"

fun isFinalizeOf :: "nat \<Rightarrow> limiter_call \<Rightarrow> bool" where
  "isFinalizeOf l (ConfirmCreated l' _) = (l' = l)"
| "isFinalizeOf l (Cancel l') = (l' = l)"
| "isFinalizeOf l _ = False"

definition leasesKept :: "limiter \<Rightarrow> limiter \<Rightarrow> bool" where
  "leasesKept s s' \<longleftrightarrow> (\<exists>new. leases s' = leases s @ new)"

definition grantedLease :: "limiter \<Rightarrow> nat \<Rightarrow> nat option" where
  "grantedLease s p = map_of (resolved s) p"

fun isWaiting :: "limiter_call \<Rightarrow> bool" where
  "isWaiting (AcquireCreateLease _) = True"
| "isWaiting GetStats = True"
| "isWaiting TimerFires = True"
| "isWaiting _ = False"

definition secondWaits :: "bool \<Rightarrow> string fset \<Rightarrow> limiter \<Rightarrow> bool" where
  "secondWaits fin active s \<longleftrightarrow>
     maxConcurrentSessions s = 1 \<and> 2 \<le> maxCreatesPerMinute s \<and>
     activeSessionIds s = active \<and>
     int (fcard active) + pendingReservations s = 1 \<and>
     pendingReservations s = (if fin then 0 else 1) \<and>
     length (leases s) = 1 \<and> finalized (leases s ! 0) = fin \<and>
     resolved s = [(0, 0)] \<and>
     (case queue s of [] \<Rightarrow> False | q # _ \<Rightarrow> resolve q = 1) \<and>
     length (createTimestamps s) \<le> 1"

text \<open>A limiter of capacity one, two requests, and the first lease confirmed with a session id.\<close>

definition firstConfirmed :: limiter where
  "firstConfirmed =
     limiterRun (newLimiter Map.empty None (Some 1) None None)
       [(0, AcquireCreateLease ''a''), (10, AcquireCreateLease ''b''), (20, ConfirmCreated 0 ''s1'')]"

lemma length_dropWhile_le': "length (dropWhile P xs) \<le> length xs"
  by (induction xs) auto

lemma inv_prune: "limiterInv s \<Longrightarrow> limiterInv (pruneCreateTimestamps now s)"
  unfolding limiterInv_def pruneCreateTimestamps_def
  using length_dropWhile_le' [of "\<lambda>t. t \<le> now - CREATE_WINDOW_MS" "createTimestamps s"]
  by simp

lemma inv_grantHead:
  assumes "limiterInv s" "fst (canGrantNextLease now s)"
  shows "limiterInv (grantHead now q rest (snd (canGrantNextLease now s)))"
proof -
  let ?p = "pruneCreateTimestamps now s"
  have p: "limiterInv ?p" using assms(1) by (rule inv_prune)
  have c: "int (length (createTimestamps ?p)) < maxCreatesPerMinute s"
          "int (fcard (activeSessionIds s)) + pendingReservations s < maxConcurrentSessions s"
    using assms(2)
    by (simp_all add: canGrantNextLease_def hasRateCapacity_def hasConcurrentCapacity_def Let_def pruneCreateTimestamps_def)
  have l: "length (dropWhile (\<lambda>t. t \<le> now - CREATE_WINDOW_MS) (createTimestamps ?p @ [now])) \<le> Suc (length (createTimestamps ?p))"
    using length_dropWhile_le' [of _ "createTimestamps ?p @ [now]"] by simp
  show ?thesis
    using p c l
    unfolding limiterInv_def
    by (simp add: grantHead_def canGrantNextLease_def hasRateCapacity_def Let_def createLease_def logStats_def unfinalized_def pruneCreateTimestamps_def)
qed

lemma inv_grantLoop: "limiterInv s \<Longrightarrow> limiterInv (grantLoop now s)"
proof (induction now s rule: grantLoop.induct)
  case (1 now s)
  show ?case
  proof (cases "queue s")
    case Nil
    then show ?thesis using "1.prems" by (simp add: grantLoop.simps)
  next
    case (Cons q rest)
    show ?thesis
    proof (cases "fst (canGrantNextLease now s)")
      case True
      then show ?thesis
        using Cons "1.IH" [OF Cons True] inv_grantHead [OF "1.prems" True]
        by (simp add: grantLoop.simps)
    next
      case False
      have "snd (canGrantNextLease now s) = pruneCreateTimestamps now s"
        by (simp add: canGrantNextLease_def hasRateCapacity_def Let_def)
      then show ?thesis
        using Cons False inv_prune [OF "1.prems"] by (simp add: grantLoop.simps)
    qed
  qed
qed

lemma inv_timer: "limiterInv s \<Longrightarrow> limiterInv (s\<lparr>processTimer := t\<rparr>)"
  by (simp add: limiterInv_def)

lemma inv_schedule: "limiterInv s \<Longrightarrow> limiterInv (scheduleWhenRateWindowOpens now s)"
  by (simp add: scheduleWhenRateWindowOpens_def limiterInv_def split: list.splits)

lemma inv_processQueue: "limiterInv s \<Longrightarrow> limiterInv (processQueue now s)"
  by (simp add: processQueue_def Let_def clearProcessTimer_def inv_schedule inv_grantLoop inv_prune inv_timer)

lemma unfinalized_update:
  "l < length ls \<Longrightarrow> \<not> finalized (ls ! l) \<Longrightarrow>
   Suc (unfinalized (ls[l := (ls ! l)\<lparr>finalized := True\<rparr>])) = unfinalized ls"
proof (induction ls arbitrary: l)
  case Nil
  then show ?case by simp
next
  case (Cons c cs)
  show ?case
  proof (cases l)
    case 0
    then show ?thesis using Cons.prems by (simp add: unfinalized_def)
  next
    case (Suc k)
    then show ?thesis using Cons.prems Cons.IH [of k] by (simp add: unfinalized_def)
  qed
qed

lemma fcard_finsert_le_Suc: "int (fcard (finsert x A)) \<le> int (fcard A) + 1"
  by (simp add: fcard_finsert_if)

lemma inv_finalize: "limiterInv s \<Longrightarrow> limiterInv (finalize l sid now s)"
proof (cases "l < length (leases s) \<and> \<not> finalized (leases s ! l)")
  case False
  assume "limiterInv s"
  with False show ?thesis by (auto simp: finalize_def)
next
  case True
  assume inv: "limiterInv s"
  let ?ls = "(leases s)[l := (leases s ! l)\<lparr>finalized := True\<rparr>]"
  have u: "Suc (unfinalized ?ls) = unfinalized (leases s)"
    using True by (simp add: unfinalized_update)
  then have pos: "pendingReservations s > 0"
    using inv by (simp add: limiterInv_def)
  define s2 where "s2 = s\<lparr>leases := ?ls, pendingReservations := pendingReservations s - 1\<rparr>"
  define s3 where "s3 = (case sid of None \<Rightarrow> s2
     | Some x \<Rightarrow> if x = [] then s2 else s2\<lparr>activeSessionIds := finsert x (activeSessionIds s2)\<rparr>)"
  have i2: "int (fcard (activeSessionIds s2)) + pendingReservations s2 + 1 \<le> maxConcurrentSessions s2
      \<and> int (length (createTimestamps s2)) \<le> maxCreatesPerMinute s2
      \<and> pendingReservations s2 = int (unfinalized (leases s2))"
    using inv u by (simp add: limiterInv_def s2_def)
  have a2: "limiterInv s2"
    using i2 by (simp add: limiterInv_def)
  have a3: "limiterInv (s2\<lparr>activeSessionIds := finsert x (activeSessionIds s2)\<rparr>)" for x
    using i2 fcard_finsert_le_Suc [of x "activeSessionIds s2"]
    by (simp add: limiterInv_def)
  have "limiterInv s3"
    unfolding s3_def using a2 a3 by (simp split: option.splits)
  moreover have "finalize l sid now s = processQueue now s3"
    using True pos by (simp add: finalize_def s3_def s2_def Let_def split: option.splits)
  ultimately show ?thesis by (simp add: inv_processQueue)
qed

lemma inv_step: "limiterInv s \<Longrightarrow> \<not> isRegister (snd c) \<Longrightarrow> limiterInv (limiterStep s c)"
proof -
  assume inv: "limiterInv s" and nr: "\<not> isRegister (snd c)"
  obtain now call where c: "c = (now, call)" by (cases c)
  have rel: "limiterInv (s\<lparr>activeSessionIds := activeSessionIds s |-| {|x|}\<rparr>)" for x
  proof -
    have "fcard (activeSessionIds s |-| {|x|}) \<le> fcard (activeSessionIds s)"
      by (rule fcard_fminus1_le)
    then show ?thesis using inv by (simp add: limiterInv_def)
  qed
  have acq: "limiterInv (s\<lparr>queue := q, acquireCalls := n\<rparr>)" for q n
    using inv by (simp add: limiterInv_def)
  show ?thesis
    using nr inv rel acq unfolding c
    by (cases call)
       (simp_all add: acquireCreateLease_def confirmCreated_def cancel_def releaseActiveSession_def
          getStats_def timerFires_def logStats_def Let_def
          inv_processQueue inv_prune inv_finalize inv_timer)
qed

lemma inv_run:
  "limiterInv s \<Longrightarrow> \<forall>c \<in> set calls. \<not> isRegister (snd c) \<Longrightarrow> limiterInv (limiterRun s calls)"
  unfolding limiterRun_def
  by (induction calls arbitrary: s) (simp_all add: inv_step)

lemma filter_dropWhile_disjoint:
  "(\<And>x. Q x \<Longrightarrow> \<not> P x) \<Longrightarrow> filter P (dropWhile Q xs) = filter P xs"
  by (induction xs) auto

lemma windowInv_mono: "windowInv T s \<Longrightarrow> T \<le> T2 \<Longrightarrow> windowInv T2 s"
  by (simp add: windowInv_def)

lemma win_prune: "windowInv now s \<Longrightarrow> windowInv now (pruneCreateTimestamps now s)"
proof -
  assume w: "windowInv now s"
  have "filter (inWindow T') (dropWhile (\<lambda>t. t \<le> now - CREATE_WINDOW_MS) (createTimestamps s))
      = filter (inWindow T') (createTimestamps s)" if "now \<le> T'" for T'
    using that by (intro filter_dropWhile_disjoint) (simp add: inWindow_def)
  then show ?thesis
    using w by (simp add: windowInv_def pruneCreateTimestamps_def)
qed

lemma win_grantHead:
  assumes "windowInv now s"
  shows "windowInv now (grantHead now q rest (snd (canGrantNextLease now s)))"
proof -
  let ?p = "pruneCreateTimestamps now s"
  have p: "windowInv now ?p" using assms by (rule win_prune)
  let ?a = "?p\<lparr>createTimestamps := createTimestamps ?p @ [now], grantLog := grantLog ?p @ [now]\<rparr>"
  have a: "windowInv now ?a"
    using p by (simp add: windowInv_def)
  have "windowInv now (pruneCreateTimestamps now ?a)"
    using a by (rule win_prune)
  then show ?thesis
    by (simp add: grantHead_def canGrantNextLease_def hasRateCapacity_def Let_def createLease_def
        logStats_def windowInv_def pruneCreateTimestamps_def)
qed

lemma win_grantLoop: "windowInv now s \<Longrightarrow> windowInv now (grantLoop now s)"
proof (induction now s rule: grantLoop.induct)
  case (1 now s)
  show ?case
  proof (cases "queue s")
    case Nil
    then show ?thesis using "1.prems" by (simp add: grantLoop.simps)
  next
    case (Cons q rest)
    show ?thesis
    proof (cases "fst (canGrantNextLease now s)")
      case True
      then show ?thesis
        using Cons "1.IH" [OF Cons True] win_grantHead [OF "1.prems"]
        by (simp add: grantLoop.simps)
    next
      case False
      have "snd (canGrantNextLease now s) = pruneCreateTimestamps now s"
        by (simp add: canGrantNextLease_def hasRateCapacity_def Let_def)
      then show ?thesis
        using Cons False win_prune [OF "1.prems"] by (simp add: grantLoop.simps)
    qed
  qed
qed

lemma win_frame:
  "createTimestamps s' = createTimestamps s \<Longrightarrow> grantLog s' = grantLog s \<Longrightarrow>
   windowInv T s \<Longrightarrow> windowInv T s'"
  by (simp add: windowInv_def)

lemma win_schedule: "windowInv T s \<Longrightarrow> windowInv T (scheduleWhenRateWindowOpens now s)"
  by (erule win_frame [rotated 2]) (simp_all add: scheduleWhenRateWindowOpens_def split: list.splits)

lemma win_processQueue: "windowInv now s \<Longrightarrow> windowInv now (processQueue now s)"
proof -
  assume w: "windowInv now s"
  have "windowInv now (clearProcessTimer s)"
    using w by (simp add: windowInv_def clearProcessTimer_def)
  then have "windowInv now (grantLoop now (pruneCreateTimestamps now (clearProcessTimer s)))"
    by (intro win_grantLoop win_prune)
  then show ?thesis
    by (simp add: processQueue_def Let_def win_schedule)
qed

lemma win_finalize: "windowInv now s \<Longrightarrow> windowInv now (finalize l sid now s)"
proof -
  assume w: "windowInv now s"
  have "windowInv now s'" if "createTimestamps s' = createTimestamps s" "grantLog s' = grantLog s" for s'
    using that w by (rule win_frame)
  then show ?thesis
    using w unfolding finalize_def Let_def
    by (auto intro!: win_processQueue split: option.splits)
qed

lemma win_step: "windowInv now s \<Longrightarrow> windowInv now (limiterStep s (now, call))"
proof -
  assume w: "windowInv now s"
  have fr: "windowInv now s'" if "createTimestamps s' = createTimestamps s" "grantLog s' = grantLog s" for s'
    using that w by (rule win_frame)
  show ?thesis
    using w
    by (cases call)
       (auto simp: acquireCreateLease_def confirmCreated_def cancel_def releaseActiveSession_def
          registerActiveSession_def getStats_def timerFires_def logStats_def Let_def
          intro!: win_processQueue win_finalize win_prune fr)
qed

lemma win_run:
  "windowInv T s \<Longrightarrow> sorted (T # map fst calls) \<Longrightarrow>
   windowInv (last (T # map fst calls)) (limiterRun s calls)"
  unfolding limiterRun_def
proof (induction calls arbitrary: s T)
  case Nil
  then show ?case by simp
next
  case (Cons c calls)
  obtain now call where c: "c = (now, call)" by (cases c)
  have "windowInv now s" using Cons.prems c by (auto intro: windowInv_mono)
  then have "windowInv now (limiterStep s c)" unfolding c by (rule win_step)
  moreover have "sorted (now # map fst calls)" using Cons.prems c by simp
  ultimately have "windowInv (last (now # map fst calls)) (foldl limiterStep (limiterStep s c) calls)"
    by (rule Cons.IH)
  then show ?case using c by simp
qed

lemma config_prune [simp]: "config (pruneCreateTimestamps now s) = config s"
  by (simp add: config_def pruneCreateTimestamps_def)

lemma config_grantLoop [simp]: "config (grantLoop now s) = config s"
proof (induction now s rule: grantLoop.induct)
  case (1 now s)
  have g: "config (grantHead now q rest (snd (canGrantNextLease now s))) = config s" for q rest
    by (simp add: config_def grantHead_def canGrantNextLease_def hasRateCapacity_def Let_def
        createLease_def logStats_def pruneCreateTimestamps_def)
  have p: "config (snd (canGrantNextLease now s)) = config s"
    by (simp add: canGrantNextLease_def hasRateCapacity_def Let_def)
  show ?case
  proof (cases "queue s")
    case Nil
    then show ?thesis by (simp add: grantLoop.simps)
  next
    case (Cons q rest)
    then show ?thesis
      using "1.IH" [OF Cons] g p by (cases "fst (canGrantNextLease now s)") (simp_all add: grantLoop.simps)
  qed
qed

lemma config_processQueue [simp]: "config (processQueue now s) = config s"
proof -
  have "config (scheduleWhenRateWindowOpens now s') = config s'" for s'
    by (simp add: config_def scheduleWhenRateWindowOpens_def split: list.splits)
  moreover have "config (clearProcessTimer s) = config s"
    by (simp add: config_def clearProcessTimer_def)
  ultimately show ?thesis by (simp add: processQueue_def Let_def)
qed

lemma config_finalize [simp]: "config (finalize l sid now s) = config s"
proof -
  have "config (processQueue now s') = config s" if "config s' = config s" for s'
    using that by simp
  then show ?thesis
    unfolding finalize_def Let_def
    by (auto simp: config_def split: option.splits)
qed

lemma config_step [simp]: "config (limiterStep s c) = config s"
proof -
  obtain now call where c: "c = (now, call)" by (cases c)
  have "config (processQueue now s') = config s" if "config s' = config s" for s'
    using that by simp
  moreover have "config (finalize l sid now s') = config s" if "config s' = config s" for s' l sid
    using that by simp
  ultimately show ?thesis
    unfolding c
    by (cases call)
       (auto simp: acquireCreateLease_def confirmCreated_def cancel_def releaseActiveSession_def
          registerActiveSession_def getStats_def timerFires_def logStats_def Let_def,
        auto simp: config_def pruneCreateTimestamps_def)
qed

lemma config_run [simp]: "config (limiterRun s calls) = config s"
  unfolding limiterRun_def by (induction calls arbitrary: s) simp_all

lemma readPositiveIntegerEnv_pos: "0 < fallback \<Longrightarrow> 0 < readPositiveIntegerEnv parseInt v fallback"
  by (simp add: readPositiveIntegerEnv_def split: option.splits)

lemma inv_newLimiter:
  assumes "case optCreates of None \<Rightarrow> True | Some v \<Rightarrow> 0 \<le> v"
      and "case optConcurrent of None \<Rightarrow> True | Some v \<Rightarrow> 0 \<le> v"
  shows "limiterInv (newLimiter parseInt optCreates optConcurrent envCreates envConcurrent)"
proof -
  have "0 < readPositiveIntegerEnv parseInt envCreates DEFAULT_MAX_CREATES_PER_MINUTE"
    by (rule readPositiveIntegerEnv_pos) (simp add: DEFAULT_MAX_CREATES_PER_MINUTE_def)
  moreover have "0 < readPositiveIntegerEnv parseInt envConcurrent DEFAULT_MAX_CONCURRENT_SESSIONS"
    by (rule readPositiveIntegerEnv_pos) (simp add: DEFAULT_MAX_CONCURRENT_SESSIONS_def)
  ultimately show ?thesis
    using assms
    by (auto simp: limiterInv_def newLimiter_def unfinalized_def fcard_fempty split: option.splits)
qed

lemma win_newLimiter: "windowInv T (newLimiter parseInt optCreates optConcurrent envCreates envConcurrent)"
  by (simp add: windowInv_def newLimiter_def)

lemma length_filter_le_int: "int (length (filter P xs)) \<le> int (length xs)"
  by simp

lemma leasesKept_refl [simp]: "leasesKept s s"
  by (simp add: leasesKept_def)

lemma leasesKept_trans: "leasesKept s s' \<Longrightarrow> leasesKept s' s'' \<Longrightarrow> leasesKept s s''"
  by (auto simp: leasesKept_def)

lemma leasesKept_same: "leases s' = leases s \<Longrightarrow> leasesKept s s'"
  by (simp add: leasesKept_def)

lemma leasesKept_grantLoop: "leasesKept s (grantLoop now s)"
proof (induction now s rule: grantLoop.induct)
  case (1 now s)
  show ?case
  proof (cases "queue s")
    case Nil
    then show ?thesis by (simp add: grantLoop.simps)
  next
    case (Cons q rest)
    have p: "leases (snd (canGrantNextLease now s)) = leases s"
      by (simp add: canGrantNextLease_def hasRateCapacity_def Let_def pruneCreateTimestamps_def)
    have g: "leasesKept s (grantHead now q rest (snd (canGrantNextLease now s)))"
      by (simp add: leasesKept_def grantHead_def canGrantNextLease_def hasRateCapacity_def Let_def
          createLease_def logStats_def pruneCreateTimestamps_def)
    show ?thesis
    proof (cases "fst (canGrantNextLease now s)")
      case True
      then show ?thesis
        using Cons leasesKept_trans [OF g "1.IH" [OF Cons True]] by (simp add: grantLoop.simps)
    next
      case False
      then show ?thesis using Cons p by (simp add: grantLoop.simps leasesKept_same)
    qed
  qed
qed

lemma leasesKept_processQueue: "leasesKept s (processQueue now s)"
proof -
  let ?s2 = "pruneCreateTimestamps now (clearProcessTimer s)"
  have a: "leasesKept s ?s2"
    by (simp add: leasesKept_def pruneCreateTimestamps_def clearProcessTimer_def)
  have b: "leasesKept ?s2 (grantLoop now ?s2)" by (rule leasesKept_grantLoop)
  have c: "leasesKept s' (scheduleWhenRateWindowOpens now s')" for s'
    by (simp add: leasesKept_def scheduleWhenRateWindowOpens_def split: list.splits)
  show ?thesis
    using leasesKept_trans [OF a b] leasesKept_trans [OF leasesKept_trans [OF a b] c]
    by (simp add: processQueue_def Let_def)
qed

lemma leasesKept_nth:
  "leasesKept s s' \<Longrightarrow> l < length (leases s) \<Longrightarrow> l < length (leases s') \<and> leases s' ! l = leases s ! l"
  by (auto simp: leasesKept_def nth_append)

lemma finalize_finalizes:
  assumes "l < length (leases s)"
  shows "l < length (leases (finalize l sid now s)) \<and> finalized (leases (finalize l sid now s) ! l)"
proof (cases "finalized (leases s ! l)")
  case True
  then show ?thesis using assms by (simp add: finalize_def)
next
  case False
  define s3 where "s3 =
    (let s1 = s\<lparr>leases := (leases s)[l := (leases s ! l)\<lparr>finalized := True\<rparr>]\<rparr>;
         s2 = (if pendingReservations s1 > 0
               then s1\<lparr>pendingReservations := pendingReservations s1 - 1\<rparr> else s1)
     in (case sid of None \<Rightarrow> s2
         | Some x \<Rightarrow> if x = [] then s2 else s2\<lparr>activeSessionIds := finsert x (activeSessionIds s2)\<rparr>))"
  have l3: "leases s3 = (leases s)[l := (leases s ! l)\<lparr>finalized := True\<rparr>]"
    by (simp add: s3_def Let_def split: option.splits)
  have f: "finalize l sid now s = processQueue now s3"
    using assms False by (simp add: finalize_def s3_def Let_def)
  have "l < length (leases s3)" "finalized (leases s3 ! l)"
    using assms by (simp_all add: l3)
  then show ?thesis
    using leasesKept_nth [OF leasesKept_processQueue, of l s3 now] by (simp add: f)
qed

lemma first_call_finalizes:
  assumes "l < length (leases s)" "isFinalizeOf l call"
  shows "l < length (leases (limiterStep s (now, call))) \<and>
         finalized (leases (limiterStep s (now, call)) ! l)"
proof (cases call)
  case (ConfirmCreated l' sessionId)
  have "l < length (leases (logStats now s))"
    using assms(1) by (simp add: logStats_def pruneCreateTimestamps_def)
  then show ?thesis
    using assms finalize_finalizes [of l s None now]
      finalize_finalizes [of l "logStats now s" "Some sessionId" now]
    by (simp add: ConfirmCreated confirmCreated_def)
next
  case (Cancel l')
  then show ?thesis using assms finalize_finalizes [of l s None now] by (simp add: cancel_def)
qed (use assms in simp_all)

lemma repeated_call_noop:
  assumes "l < length (leases s)" "finalized (leases s ! l)" "isFinalizeOf l call"
  shows "observable (limiterStep s (now, call)) = observable s \<and>
         leases (limiterStep s (now, call)) = leases s"
proof (cases call)
  case (ConfirmCreated l' sessionId)
  then show ?thesis
    using assms
    by (simp add: confirmCreated_def finalize_def logStats_def pruneCreateTimestamps_def observable_def)
next
  case (Cancel l')
  then show ?thesis using assms by (simp add: cancel_def finalize_def)
qed (use assms in simp_all)

lemma repeated_calls_noop:
  assumes "l < length (leases s)" "finalized (leases s ! l)"
      and "\<forall>c \<in> set later. isFinalizeOf l (snd c)"
  shows "observable (limiterRun s later) = observable s"
  using assms unfolding limiterRun_def
proof (induction later arbitrary: s)
  case Nil
  then show ?case by simp
next
  case (Cons c later)
  obtain now call where c: "c = (now, call)" by (cases c)
  have call: "isFinalizeOf l call" using Cons.prems(3) c by simp
  note r = repeated_call_noop [OF Cons.prems(1,2) call, of now]
  have "observable (foldl limiterStep (limiterStep s c) later) = observable (limiterStep s c)"
    using Cons.prems r c by (intro Cons.IH) simp_all
  then show ?case using r c by simp
qed

lemmas limiter_eval =
  limiterRun_def newLimiter_def readPositiveIntegerEnv_def
  DEFAULT_MAX_CREATES_PER_MINUTE_def DEFAULT_MAX_CONCURRENT_SESSIONS_def CREATE_WINDOW_MS_def
  acquireCreateLease_def confirmCreated_def cancel_def registerActiveSession_def
  releaseActiveSession_def getStats_def timerFires_def finalize_def
  logStats_def pruneCreateTimestamps_def processQueue_def clearProcessTimer_def
  grantLoop.simps canGrantNextLease_def hasRateCapacity_def hasConcurrentCapacity_def
  grantHead_def createLease_def scheduleWhenRateWindowOpens_def Let_def fcard_fempty

lemma hasConcurrentCapacity_prune [simp]:
  "hasConcurrentCapacity (pruneCreateTimestamps now s) = hasConcurrentCapacity s"
  by (simp add: hasConcurrentCapacity_def pruneCreateTimestamps_def)

lemma prune_idem [simp]:
  "pruneCreateTimestamps now (pruneCreateTimestamps now s) = pruneCreateTimestamps now s"
proof -
  have "dropWhile P (dropWhile P xs) = dropWhile P xs" for P and xs :: "int list"
    by (induction xs) auto
  then show ?thesis by (simp add: pruneCreateTimestamps_def)
qed

lemma grantLoop_no_capacity:
  "\<not> hasConcurrentCapacity s \<Longrightarrow>
   grantLoop now s = (if queue s = [] then s else pruneCreateTimestamps now s)"
  by (cases "queue s")
     (simp_all add: grantLoop.simps canGrantNextLease_def hasRateCapacity_def Let_def)

lemma processQueue_no_capacity:
  "\<not> hasConcurrentCapacity s \<Longrightarrow>
   processQueue now s = pruneCreateTimestamps now (clearProcessTimer s)"
proof -
  assume n: "\<not> hasConcurrentCapacity s"
  let ?s2 = "pruneCreateTimestamps now (clearProcessTimer s)"
  have c: "\<not> hasConcurrentCapacity ?s2"
    using n by (simp add: hasConcurrentCapacity_def clearProcessTimer_def pruneCreateTimestamps_def)
  have "grantLoop now ?s2 = ?s2"
    using grantLoop_no_capacity [OF c, of now] by simp
  then show ?thesis using c by (simp add: processQueue_def Let_def)
qed

lemma length_dropWhile_le1: "length xs \<le> Suc 0 \<Longrightarrow> length (dropWhile P xs) \<le> Suc 0"
  using length_dropWhile_le [of P xs] by simp

lemma secondWaits_no_capacity: "secondWaits fin active s \<Longrightarrow> \<not> hasConcurrentCapacity s"
  by (simp add: secondWaits_def hasConcurrentCapacity_def)

lemma secondWaits_prune:
  "secondWaits fin active s \<Longrightarrow> secondWaits fin active (pruneCreateTimestamps now s)"
  by (simp add: secondWaits_def pruneCreateTimestamps_def length_dropWhile_le1)

lemma secondWaits_processQueue:
  assumes "secondWaits fin active s"
  shows "secondWaits fin active (processQueue now s)"
proof -
  have "secondWaits fin active (clearProcessTimer s)"
    using assms by (simp add: secondWaits_def clearProcessTimer_def)
  then show ?thesis
    using processQueue_no_capacity [OF secondWaits_no_capacity [OF assms], of now]
    by (simp add: secondWaits_prune)
qed

lemma secondWaits_step:
  assumes "secondWaits fin active s" "isWaiting call"
  shows "secondWaits fin active (limiterStep s (now, call))"
proof (cases call)
  case (AcquireCreateLease src)
  let ?s1 = "s\<lparr>queue := queue s @ [\<lparr>source = src, resolve = acquireCalls s\<rparr>],
               acquireCalls := Suc (acquireCalls s)\<rparr>"
  have "secondWaits fin active ?s1"
    using assms(1) by (auto simp: secondWaits_def split: list.splits)
  then have "secondWaits fin active (processQueue now (pruneCreateTimestamps now ?s1))"
    by (intro secondWaits_processQueue secondWaits_prune)
  then show ?thesis
    by (simp add: AcquireCreateLease acquireCreateLease_def logStats_def Let_def)
next
  case GetStats
  then show ?thesis using assms(1) by (simp add: getStats_def secondWaits_prune)
next
  case TimerFires
  have "secondWaits fin active (s\<lparr>processTimer := None\<rparr>)"
    using assms(1) by (simp add: secondWaits_def)
  then show ?thesis
    using assms(1) by (simp add: TimerFires timerFires_def secondWaits_processQueue)
qed (use assms in simp_all)

lemma secondWaits_run:
  "secondWaits fin active s \<Longrightarrow> \<forall>c \<in> set waiting. isWaiting (snd c) \<Longrightarrow>
   secondWaits fin active (limiterRun s waiting)"
  unfolding limiterRun_def
proof (induction waiting arbitrary: s)
  case Nil
  then show ?case by simp
next
  case (Cons c waiting)
  obtain now call where c: "c = (now, call)" by (cases c)
  have "secondWaits fin active (limiterStep s c)"
    using Cons.prems c by (simp add: secondWaits_step)
  then show ?case using Cons by simp
qed

lemma resolved_prune [simp]: "resolved (pruneCreateTimestamps now s) = resolved s"
  by (simp add: pruneCreateTimestamps_def)

lemma processQueue_grants_second:
  assumes "maxConcurrentSessions s = 1" "2 \<le> maxCreatesPerMinute s"
      and "activeSessionIds s = {||}" "pendingReservations s = 0"
      and "length (leases s) = 1" "resolved s = [(0, 0)]"
      and "queue s = q # rest" "resolve q = 1"
      and "length (createTimestamps s) \<le> 1"
  shows "resolved (processQueue now s) = [(0, 0), (1, 1)]"
proof -
  let ?s2 = "pruneCreateTimestamps now (clearProcessTimer s)"
  have len: "length (createTimestamps ?s2) \<le> Suc 0"
    using assms(9) by (simp add: pruneCreateTimestamps_def clearProcessTimer_def length_dropWhile_le1)
  have can: "fst (canGrantNextLease now ?s2)"
    using assms(1-4) len
    by (simp add: canGrantNextLease_def hasRateCapacity_def hasConcurrentCapacity_def Let_def
        fcard_fempty) (simp add: pruneCreateTimestamps_def clearProcessTimer_def)
  let ?g = "grantHead now q rest (snd (canGrantNextLease now ?s2))"
  have q2: "queue ?s2 = q # rest"
    using assms(7) by (simp add: clearProcessTimer_def)
  have g_res: "resolved ?g = [(0, 0), (1, 1)]"
    using assms(5,6,8)
    by (simp add: grantHead_def canGrantNextLease_def hasRateCapacity_def Let_def createLease_def
        logStats_def pruneCreateTimestamps_def clearProcessTimer_def)
  have g_cap: "\<not> hasConcurrentCapacity ?g"
    using assms(1,3,4)
    by (simp add: grantHead_def canGrantNextLease_def hasRateCapacity_def Let_def createLease_def
        logStats_def pruneCreateTimestamps_def clearProcessTimer_def hasConcurrentCapacity_def
        fcard_fempty)
  have loop: "grantLoop now ?s2 = grantLoop now ?g"
    using q2 can by (subst grantLoop.simps) simp
  have "resolved (grantLoop now ?g) = resolved ?g"
    by (simp add: grantLoop_no_capacity [OF g_cap])
  then have "resolved (grantLoop now ?g) = [(0, 0), (1, 1)]"
    using g_res by simp
  then have r: "resolved (grantLoop now ?s2) = [(0, 0), (1, 1)]"
    using loop by simp
  have "resolved (scheduleWhenRateWindowOpens now s') = resolved s'" for s'
    by (simp add: scheduleWhenRateWindowOpens_def split: list.splits)
  then show ?thesis
    using r by (simp add: processQueue_def Let_def)
qed

lemma two_acquires_secondWaits:
  assumes "maxConcurrentSessions s0 = 1" "2 \<le> maxCreatesPerMinute s0"
      and "s0 = newLimiter parseInt optCreates optConcurrent envCreates envConcurrent"
  shows "secondWaits False {||}
           (limiterRun s0 [(t1, AcquireCreateLease a), (t2, AcquireCreateLease b)])"
proof -
  have f: "maxConcurrentSessions s0 = 1 \<and> 2 \<le> maxCreatesPerMinute s0 \<and>
      createTimestamps s0 = [] \<and> activeSessionIds s0 = {||} \<and> pendingReservations s0 = 0 \<and>
      queue s0 = [] \<and> leases s0 = [] \<and> resolved s0 = [] \<and> acquireCalls s0 = 0"
    using assms(1,2) by (simp add: assms(3) newLimiter_def)
  define s1 where "s1 = limiterStep s0 (t1, AcquireCreateLease a)"
  have s1: "secondWaits False {||}
      (s1\<lparr>queue := [\<lparr>source = b, resolve = 1\<rparr>], acquireCalls := 2\<rparr>)
      \<and> queue s1 = [] \<and> acquireCalls s1 = 1"
    using f unfolding s1_def
    by (simp add: secondWaits_def acquireCreateLease_def logStats_def pruneCreateTimestamps_def
        processQueue_def clearProcessTimer_def grantLoop.simps canGrantNextLease_def
        hasRateCapacity_def hasConcurrentCapacity_def grantHead_def createLease_def Let_def
        fcard_fempty)
  let ?s1q = "s1\<lparr>queue := [\<lparr>source = b, resolve = 1\<rparr>], acquireCalls := 2\<rparr>"
  have "limiterStep s1 (t2, AcquireCreateLease b) = processQueue t2 (pruneCreateTimestamps t2 ?s1q)"
    using s1 by (simp add: acquireCreateLease_def logStats_def Let_def numeral_2_eq_2)
  moreover have "secondWaits False {||} (processQueue t2 (pruneCreateTimestamps t2 ?s1q))"
    using s1 by (intro secondWaits_processQueue secondWaits_prune) simp
  ultimately show ?thesis
    by (simp add: limiterRun_def s1_def)
qed

lemma secondWaits_queue:
  "secondWaits fin active s \<Longrightarrow> \<exists>q rest. queue s = q # rest \<and> resolve q = 1"
  by (auto simp: secondWaits_def split: list.splits)

lemma finalize_cancel_grants:
  assumes "secondWaits False {||} s"
  shows "resolved (finalize 0 None now s) = [(0, 0), (1, 1)]"
proof -
  obtain q rest where q: "queue s = q # rest" "resolve q = 1"
    using secondWaits_queue [OF assms] by blast
  let ?s3 = "s\<lparr>leases := (leases s)[0 := (leases s ! 0)\<lparr>finalized := True\<rparr>],
              pendingReservations := 0\<rparr>"
  have f: "finalize 0 None now s = processQueue now ?s3"
    using assms by (simp add: finalize_def secondWaits_def Let_def)
  have "resolved (processQueue now ?s3) = [(0, 0), (1, 1)]"
    using assms q by (intro processQueue_grants_second [of _ q rest]) (simp_all add: secondWaits_def)
  then show ?thesis by (simp add: f)
qed

lemma finalize_confirm_waits:
  assumes "secondWaits False {||} s" "sessionId \<noteq> []"
  shows "secondWaits True {|sessionId|} (finalize 0 (Some sessionId) now s)"
proof -
  let ?s3 = "s\<lparr>leases := (leases s)[0 := (leases s ! 0)\<lparr>finalized := True\<rparr>],
              pendingReservations := 0, activeSessionIds := {|sessionId|}\<rparr>"
  have f: "finalize 0 (Some sessionId) now s = processQueue now ?s3"
    using assms by (simp add: finalize_def secondWaits_def Let_def)
  have "fcard {|sessionId|} = 1"
    by (simp add: fcard_finsert_if fcard_fempty)
  then have "secondWaits True {|sessionId|} ?s3"
    using assms(1) by (simp add: secondWaits_def)
  then show ?thesis unfolding f by (rule secondWaits_processQueue)
qed

lemma release_grants:
  assumes "secondWaits True {|sessionId|} s" "sessionId \<noteq> []"
  shows "resolved (releaseActiveSession sessionId now s) = [(0, 0), (1, 1)]"
proof -
  obtain q rest where q: "queue s = q # rest" "resolve q = 1"
    using secondWaits_queue [OF assms(1)] by blast
  let ?s1 = "s\<lparr>activeSessionIds := {||}\<rparr>"
  have a: "activeSessionIds s = {|sessionId|}" using assms(1) by (simp add: secondWaits_def)
  have r: "releaseActiveSession sessionId now s = processQueue now ?s1"
    using assms(2) a by (simp add: releaseActiveSession_def)
  have "resolved (processQueue now ?s1) = [(0, 0), (1, 1)]"
    using assms(1) q by (intro processQueue_grants_second [of _ q rest]) (simp_all add: secondWaits_def)
  then show ?thesis by (simp add: r)
qed

text \<open>
  Claim C1. Start from a limiter built by the constructor (limits from the environment,
  or non-negative limits passed as options) and make any sequence of calls other than
  \<open>registerActiveSession\<close>: \<open>acquireCreateLease\<close>, \<open>confirmCreated\<close>, \<open>cancel\<close>,
  \<open>releaseActiveSession\<close>, \<open>getStats\<close> and the timer callback, at any clock readings.
  After every prefix of the sequence the limits are the constructor's, the number of
  active sessions plus the pending reservations is at most \<open>maxConcurrentSessions\<close>, and
  \<open>createTimestamps\<close> holds at most \<open>maxCreatesPerMinute\<close> entries. When the clock readings
  never decrease, the leases granted during the 60 seconds before any time \<open>T\<close> not
  earlier than the calls made so far are at most \<open>maxCreatesPerMinute\<close> as well.
\<close>

theorem limiter_budgets_never_exceeded:
  assumes "case optCreates of None \<Rightarrow> True | Some v \<Rightarrow> 0 \<le> v"
      and "case optConcurrent of None \<Rightarrow> True | Some v \<Rightarrow> 0 \<le> v"
      and "\<forall>c \<in> set calls. \<not> isRegister (snd c)"
  shows "let s0 = newLimiter parseInt optCreates optConcurrent envCreates envConcurrent;
             s = limiterRun s0 (take n calls)
         in maxConcurrentSessions s = maxConcurrentSessions s0 \<and>
            maxCreatesPerMinute s = maxCreatesPerMinute s0 \<and>
            int (fcard (activeSessionIds s)) + pendingReservations s \<le> maxConcurrentSessions s0 \<and>
            int (length (createTimestamps s)) \<le> maxCreatesPerMinute s0 \<and>
            (sorted (map fst calls) \<longrightarrow>
               (\<forall>T. (\<forall>c \<in> set (take n calls). fst c \<le> T) \<longrightarrow>
                  int (length (filter (inWindow T) (grantLog s))) \<le> maxCreatesPerMinute s0))"
proof -
  define s0 where "s0 = newLimiter parseInt optCreates optConcurrent envCreates envConcurrent"
  define s where "s = limiterRun s0 (take n calls)"
  have nr: "\<forall>c \<in> set (take n calls). \<not> isRegister (snd c)"
    using assms(3) by (meson in_set_takeD)
  have inv: "limiterInv s"
    unfolding s_def s0_def by (intro inv_run inv_newLimiter assms(1,2) nr)
  have cfg: "config s = config s0"
    by (simp add: s_def)
  have win: "int (length (filter (inWindow T) (grantLog s))) \<le> maxCreatesPerMinute s0"
    if srt: "sorted (map fst calls)" and le: "\<forall>c \<in> set (take n calls). fst c \<le> T" for T
  proof -
    define T0 where "T0 = (if take n calls = [] then T else Min (set (map fst (take n calls))))"
    have "sorted (map fst (take n calls))"
      using srt by (simp add: take_map [symmetric] sorted_wrt_take)
    moreover have "\<forall>x \<in> set (map fst (take n calls)). T0 \<le> x"
      by (auto simp: T0_def)
    ultimately have s: "sorted (T0 # map fst (take n calls))" by simp
    have "windowInv T0 s0" unfolding s0_def by (rule win_newLimiter)
    then have w: "windowInv (last (T0 # map fst (take n calls))) s"
      unfolding s_def using s by (rule win_run)
    have "last (T0 # map fst (take n calls)) \<le> T"
      using le by (auto simp: T0_def last_map)
    with w have "windowInv T s" by (rule windowInv_mono)
    then have "filter (inWindow T) (grantLog s) = filter (inWindow T) (createTimestamps s)"
      by (simp add: windowInv_def)
    then have "int (length (filter (inWindow T) (grantLog s))) \<le> int (length (createTimestamps s))"
      by simp
    also have "\<dots> \<le> maxCreatesPerMinute s" using inv by (simp add: limiterInv_def)
    finally show ?thesis using cfg by (simp add: config_def)
  qed
  show ?thesis
    using inv cfg win
    unfolding Let_def s_def [symmetric] s0_def [symmetric]
    by (simp add: limiterInv_def config_def)
qed

theorem limiter_budgets_never_exceeded_witness:
  "let s = limiterRun (newLimiter (\<lambda>_. None) None (Some 1) None None)
             (take 3 [(0, AcquireCreateLease ''a''), (10, AcquireCreateLease ''b''),
                      (20, ConfirmCreated 0 ''s1'')])
   in int (fcard (activeSessionIds s)) + pendingReservations s \<le> 1 \<and>
      int (length (createTimestamps s)) \<le> 20 \<and>
      int (length (filter (inWindow 20) (grantLog s))) \<le> 20"
  using limiter_budgets_never_exceeded [of None "Some 1"
     "[(0, AcquireCreateLease ''a''), (10, AcquireCreateLease ''b''), (20, ConfirmCreated 0 ''s1'')]"
     "\<lambda>_. None" None None 3]
  by (simp add: Let_def newLimiter_def readPositiveIntegerEnv_def DEFAULT_MAX_CREATES_PER_MINUTE_def)

text \<open>
  Claim C6. Take any limiter state and a lease \<open>l\<close> that has been handed out. After a
  first call of \<open>confirmCreated\<close> or \<open>cancel\<close> on that lease, any further calls of
  either of them on the same lease, in any order, in any number and at any clock
  readings, leave the pending counter, the set of active sessions and the queue as the
  first call left them.
\<close>

theorem lease_finalize_idempotent:
  assumes "l < length (leases s)"
      and "isFinalizeOf l first"
      and "\<forall>c \<in> set later. isFinalizeOf l (snd c)"
  shows "observable (limiterRun (limiterStep s (now, first)) later)
       = observable (limiterStep s (now, first))"
  using first_call_finalizes [OF assms(1,2), of now] assms(3)
  by (intro repeated_calls_noop) simp_all

theorem lease_finalize_idempotent_witness:
  "observable
     (limiterRun
        (limiterStep
           (limiterRun (newLimiter (\<lambda>_. None) None None None None) [(0, AcquireCreateLease ''a'')])
           (10, ConfirmCreated 0 ''s1''))
        [(20, Cancel 0), (30, ConfirmCreated 0 ''s2''), (40, Cancel 0)])
   = (0, {|''s1''|}, [])"
proof -
  let ?s = "limiterRun (newLimiter (\<lambda>_. None) None None None None) [(0, AcquireCreateLease ''a'')]"
  have h1: "0 < length (leases ?s)" by (simp add: limiter_eval)
  have h2: "isFinalizeOf 0 (ConfirmCreated 0 ''s1'')" by simp
  have h3: "\<forall>c \<in> set [(20, Cancel 0), (30, ConfirmCreated 0 ''s2''), (40, Cancel 0)]. isFinalizeOf 0 (snd c)"
    by simp
  have "observable (limiterStep ?s (10, ConfirmCreated 0 ''s1'')) = (0, {|''s1''|}, [])"
    by (simp add: limiter_eval observable_def)
  then show ?thesis
    using lease_finalize_idempotent [OF h1 h2 h3, of 10] by simp
qed

text \<open>
  Claim C4, as amended. Let \<open>maxConcurrentSessions = 1\<close> and \<open>maxCreatesPerMinute \<ge> 2\<close>,
  and let two requests be made on a new limiter, followed by any number of further
  requests, \<open>getStats\<close> calls and timer callbacks. The first request holds lease 0 and the
  second holds none. The second request is given lease 1 as soon as the first lease is
  cancelled, or confirmed with an empty session id. When the first lease is confirmed
  with a session id, the second request still holds no lease, also after further
  waiting, and it is given lease 1 when that session is released.
\<close>

theorem second_lease_waits_for_capacity:
  assumes "s0 = newLimiter parseInt optCreates optConcurrent envCreates envConcurrent"
      and "maxConcurrentSessions s0 = 1" and "2 \<le> maxCreatesPerMinute s0"
      and "\<forall>c \<in> set waiting. isWaiting (snd c)"
      and "\<forall>c \<in> set waiting'. isWaiting (snd c)"
      and "sessionId \<noteq> []"
      and "s = limiterRun s0 ((t1, AcquireCreateLease a) # (t2, AcquireCreateLease b) # waiting)"
      and "s' = limiterRun (limiterStep s (t3, ConfirmCreated 0 sessionId)) waiting'"
  shows "grantedLease s 0 = Some 0 \<and> grantedLease s 1 = None \<and>
         grantedLease (limiterStep s (t3, Cancel 0)) 1 = Some 1 \<and>
         grantedLease (limiterStep s (t3, ConfirmCreated 0 [])) 1 = Some 1 \<and>
         grantedLease s' 1 = None \<and>
         grantedLease (limiterStep s' (t4, ReleaseActiveSession sessionId)) 1 = Some 1"
proof -
  have two: "secondWaits False {||}
      (limiterRun s0 [(t1, AcquireCreateLease a), (t2, AcquireCreateLease b)])"
    using assms(2,3,1) by (rule two_acquires_secondWaits)
  have "s = limiterRun (limiterRun s0 [(t1, AcquireCreateLease a), (t2, AcquireCreateLease b)]) waiting"
    by (simp add: assms(7) limiterRun_def)
  then have w: "secondWaits False {||} s"
    using secondWaits_run [OF two assms(4)] by simp
  have len: "0 < length (leases s)" using w by (simp add: secondWaits_def)
  have "secondWaits False {||} (logStats t3 s)"
    using w by (simp add: logStats_def secondWaits_prune)
  then have "secondWaits True {|sessionId|} (finalize 0 (Some sessionId) t3 (logStats t3 s))"
    using assms(6) by (rule finalize_confirm_waits)
  then have "secondWaits True {|sessionId|} (limiterStep s (t3, ConfirmCreated 0 sessionId))"
    using assms(6) len by (simp add: confirmCreated_def)
  then have w': "secondWaits True {|sessionId|} s'"
    unfolding assms(8) using assms(5) by (rule secondWaits_run)
  have c: "limiterStep s (t3, ConfirmCreated 0 []) = finalize 0 None t3 s"
    using len by (simp add: confirmCreated_def)
  show ?thesis
    using w w' finalize_cancel_grants [OF w, of t3] release_grants [OF w' assms(6), of t4] c
    by (simp add: grantedLease_def cancel_def secondWaits_def)
qed

theorem second_lease_waits_for_capacity_witness:
  "grantedLease
     (limiterRun (newLimiter Map.empty None (Some 1) None None)
        [(0, AcquireCreateLease ''a''), (10, AcquireCreateLease ''b''), (15, GetStats)]) 1 = None \<and>
   grantedLease
     (limiterStep
        (limiterRun (newLimiter Map.empty None (Some 1) None None)
           [(0, AcquireCreateLease ''a''), (10, AcquireCreateLease ''b''), (15, GetStats)])
        (20, Cancel 0)) 1 = Some 1 \<and>
   grantedLease
     (limiterStep
        (limiterRun
           (limiterStep
              (limiterRun (newLimiter Map.empty None (Some 1) None None)
                 [(0, AcquireCreateLease ''a''), (10, AcquireCreateLease ''b''), (15, GetStats)])
              (20, ConfirmCreated 0 ''s1''))
           [(25, TimerFires)])
        (30, ReleaseActiveSession ''s1'')) 1 = Some 1"
proof -
  let ?s0 = "newLimiter Map.empty None (Some 1) None None"
  have h2: "maxConcurrentSessions ?s0 = 1" by (simp add: newLimiter_def)
  have h3: "2 \<le> maxCreatesPerMinute ?s0"
    by (simp add: newLimiter_def readPositiveIntegerEnv_def DEFAULT_MAX_CREATES_PER_MINUTE_def)
  have h4: "\<forall>c \<in> set [(15::int, GetStats)]. isWaiting (snd c)" by simp
  have h5: "\<forall>c \<in> set [(25::int, TimerFires)]. isWaiting (snd c)" by simp
  have h6: "''s1'' \<noteq> []" by simp
  show ?thesis
    using second_lease_waits_for_capacity [OF refl h2 h3 h4 h5 h6 refl refl, of 0 "''a''" 10 "''b''" 20 30]
    by simp
qed

text \<open>
  The claim as it is stated fails: with \<open>maxConcurrentSessions = 1\<close>, once the first lease
  is confirmed with the session id \<open>s1\<close> the session is active, the budget is still used
  up, and the second request stays in the queue without a lease.
\<close>

theorem second_lease_not_granted_on_confirm:
  "finalized (leases firstConfirmed ! 0) \<and>
   activeSessionIds firstConfirmed = {|''s1''|} \<and>
   pendingReservations firstConfirmed = 0 \<and>
   queue firstConfirmed = [\<lparr>source = ''b'', resolve = 1\<rparr>] \<and>
   grantedLease firstConfirmed 1 = None"
  by (simp add: firstConfirmed_def grantedLease_def limiter_eval fcard_finsert_if)

section \<open>Interaction synthesizer\<close>

text \<open>
  The interaction handling of the hook \<open>useBrowserCDP\<close>: \<open>addInteraction\<close>,
  \<open>handleKeydown\<close>, and the click and navigation branches of the two message handlers
  (the \<open>Runtime.bindingCalled\<close> branch of a page connection's \<open>onmessage\<close> and
  \<open>handleScreencastMessage\<close>). The state is the React state \<open>interactions\<close> and the refs
  the handlers read and write. Modelling decisions:
  \<^item> \<open>Date.now()\<close> is the argument \<open>now\<close> of a handler and \<open>Math.random()\<close>'s seven
    base-36 digits are its argument \<open>rnd\<close>; a handler that reads the clock more than
    once gets the same value each time;
  \<^item> the updater functions passed to \<open>setInteractions\<close> run in the order they were
    queued, so each is applied at once;
  \<^item> a JavaScript object is a record of the properties the code names, with the
    remaining properties kept in an association list; an absent property is \<open>None\<close>;
  \<^item> the callbacks \<open>onInteraction\<close> and \<open>onFrameNavigation\<close> and the cropped
    screenshot, which arrives later and only fills \<open>screenshotUrl\<close>, are outside the
    model.
\<close>

datatype interaction_type = user_event | tab_navigation | frame_navigation

record element =
  tagName :: "string option"
  elemText :: "string option"
  selector :: "string option"
  href :: "string option"
  attributes :: "(string \<times> string) list"

record keydownEvent =
  key :: string
  target :: "element option"
  ctrlKey :: bool
  altKey :: bool
  metaKey :: bool
  keyFields :: "(string \<times> string) list"

record clickEvent =
  clickTarget :: "element option"
  clickFields :: "(string \<times> string) list"

record frame =
  frameId :: string
  frameUrl :: string
  frameName :: string
  parentId :: "string option"

text \<open>
  The \<open>data\<close> of an interaction: the event with its \<open>type\<close> overwritten (and the combo
  added), the click event as it came, or the object built for a navigation.
\<close>

datatype interaction_data =
    NoData
  | KeyData keydownEvent string "string option"
  | ClickData clickEvent
  | NavigationData string string string string
  | OtherData "(string \<times> string) list"

record Interaction =
  interaction_id :: string
  itype :: interaction_type
  timestamp :: int
  pageId :: string
  screenshotUrl :: "string option"
  element :: element
  data :: interaction_data

record typingBuffer =
  interactionId :: string
  bufferText :: string
  lastTimestamp :: int
  bufferSelector :: string

record synthesizer =
  interactions :: "Interaction list"
  typingBufferRef :: "typingBuffer option"
  lastNavigationRefreshRef :: int
  lastClickTimestampRef :: int
  lastKeydownRef :: "(string \<times> int) option"

definition initialSynthesizer :: synthesizer where
  "initialSynthesizer =
     \<lparr> interactions = [], typingBufferRef = None, lastNavigationRefreshRef = 0,
       lastClickTimestampRef = 0, lastKeydownRef = None \<rparr>"

subsection \<open>Interaction ids\<close>

text \<open>A number in a template string is written in decimal.\<close>

function showNat :: "nat \<Rightarrow> string" where
  "showNat n = (if n < 10 then [char_of (48 + n)] else showNat (n div 10) @ [char_of (48 + n mod 10)])"
  by pat_completeness auto
termination
  by (relation "measure id") auto

declare showNat.simps [simp del]

definition showInt :: "int \<Rightarrow> string" where
  "showInt i = (if i < 0 then CHR ''-'' # showNat (nat (- i)) else showNat (nat i))"

definition makeId :: "string \<Rightarrow> int \<Rightarrow> string \<Rightarrow> string" where
  "makeId prefix now rnd = prefix @ ''-'' @ showInt now @ ''-'' @ rnd"

fun typeName :: "interaction_type \<Rightarrow> string" where
  "typeName user_event = ''user_event''"
| "typeName tab_navigation = ''tab_navigation''"
| "typeName frame_navigation = ''frame_navigation''"

subsection \<open>addInteraction, clearInteractions, removeInteraction\<close>

definition addInteraction ::
  "interaction_type \<Rightarrow> element \<Rightarrow> string option \<Rightarrow> interaction_data \<Rightarrow> int \<Rightarrow> string \<Rightarrow>
   synthesizer \<Rightarrow> synthesizer" where
  "addInteraction typ el pg d now rnd s =
     (let s1 = s\<lparr>typingBufferRef := None\<rparr>;
          interaction =
            \<lparr> interaction_id = makeId (typeName typ) now rnd,
              itype = typ,
              timestamp = now,
              pageId = (case pg of None \<Rightarrow> [] | Some p \<Rightarrow> p),
              screenshotUrl = None,
              element = el,
              data = d \<rparr>
      in s1\<lparr>interactions := interactions s1 @ [interaction]\<rparr>)"

definition clearInteractions :: "synthesizer \<Rightarrow> synthesizer" where
  "clearInteractions s = s\<lparr>interactions := [], typingBufferRef := None\<rparr>"

definition removeInteraction :: "string \<Rightarrow> synthesizer \<Rightarrow> synthesizer" where
  "removeInteraction i s = s\<lparr>interactions := filter (\<lambda>x. interaction_id x \<noteq> i) (interactions s)\<rparr>"

subsection \<open>handleKeydown\<close>

definition ignoredKeys :: "string list" where
  "ignoredKeys = [''Shift'', ''Control'', ''Alt'', ''Meta'', ''CapsLock'']"

text \<open>\<open>target?.selector || 'unknown'\<close>: an absent or empty selector gives \<open>unknown\<close>.\<close>

definition selectorOf :: "element option \<Rightarrow> string" where
  "selectorOf t =
     (case t of
        None \<Rightarrow> ''unknown''
      | Some e \<Rightarrow> (case selector e of
                     None \<Rightarrow> ''unknown''
                   | Some sel \<Rightarrow> if sel = [] then ''unknown'' else sel))"

text \<open>\<open>{...target}\<close>: the properties of the target, none when there is no target.\<close>

definition emptyElement :: element where
  "emptyElement = \<lparr> tagName = None, elemText = None, selector = None, href = None, attributes = [] \<rparr>"

definition spreadTarget :: "element option \<Rightarrow> element" where
  "spreadTarget t = (case t of None \<Rightarrow> emptyElement | Some e \<Rightarrow> e)"

text \<open>
  \<open>toUpperCase\<close> on the ASCII letters; a \<open>char\<close> is a byte, other bytes are kept. It
  agrees with JavaScript on keys made of ASCII characters only: JavaScript also maps
  letters outside ASCII (\<open>toUpperCase\<close> of e with an acute accent is the capital letter),
  which a string of bytes cannot hold. It is used for the label of a key pressed with a
  modifier and nowhere else.
\<close>

definition toUpperCase :: "string \<Rightarrow> string" where
  "toUpperCase str =
     map (\<lambda>c. let n = (of_char c :: nat) in if 97 \<le> n \<and> n \<le> 122 then char_of (n - 32) else c) str"

fun joinPlus :: "string list \<Rightarrow> string" where
  "joinPlus [] = []"
| "joinPlus [x] = x"
| "joinPlus (x # y # ys) = x @ ''+'' @ joinPlus (y # ys)"

definition comboOf :: "keydownEvent \<Rightarrow> string" where
  "comboOf ev =
     joinPlus ((if ctrlKey ev then [''Ctrl''] else []) @
               (if altKey ev then [''Alt''] else []) @
               (if metaKey ev then [''Cmd''] else []) @
               [if length (key ev) = 1 then toUpperCase (key ev) else key ev])"

text \<open>A regular character is itself; any other key is written in brackets.\<close>

definition keyText :: "string \<Rightarrow> string" where
  "keyText k = (if length k = 1 then k else ''['' @ k @ '']'')"

text \<open>\<open>lastIndexOf\<close>: the index of the last occurrence, \<open>None\<close> for \<open>-1\<close>.\<close>

fun lastIndexOf :: "char \<Rightarrow> string \<Rightarrow> nat option" where
  "lastIndexOf c [] = None"
| "lastIndexOf c (x # xs) =
     (case lastIndexOf c xs of
        Some i \<Rightarrow> Some (Suc i)
      | None \<Rightarrow> if x = c then Some 0 else None)"

text \<open>What Backspace leaves of the buffered text; \<open>slice(0, -1)\<close> is \<open>butlast\<close>.\<close>

definition backspaceText :: "string \<Rightarrow> string" where
  "backspaceText currentText =
     (if currentText \<noteq> [] \<and> last currentText = CHR '']''
      then (case lastIndexOf (CHR ''['') currentText of
              Some bracketStart \<Rightarrow> take bracketStart currentText
            | None \<Rightarrow> butlast currentText)
      else butlast currentText)"

text \<open>
  The updater that rewrites the text of the interaction a buffer extends:
  \<open>findIndex\<close> takes the first interaction with the id, and nothing changes when there
  is none.
\<close>

fun updateText :: "string \<Rightarrow> int \<Rightarrow> string \<Rightarrow> Interaction list \<Rightarrow> Interaction list" where
  "updateText i now newText [] = []"
| "updateText i now newText (x # xs) =
     (if interaction_id x = i
      then x\<lparr>timestamp := now, element := (element x)\<lparr>elemText := Some newText\<rparr>\<rparr> # xs
      else x # updateText i now newText xs)"

definition bufferActive :: "synthesizer \<Rightarrow> string \<Rightarrow> int \<Rightarrow> bool" where
  "bufferActive s sel now =
     (case typingBufferRef s of
        None \<Rightarrow> False
      | Some b \<Rightarrow> bufferSelector b = sel \<and> now - lastTimestamp b < 3000)"

definition duplicateKeydown :: "synthesizer \<Rightarrow> string \<Rightarrow> int \<Rightarrow> bool" where
  "duplicateKeydown s k now =
     (case lastKeydownRef s of
        None \<Rightarrow> False
      | Some (k', t) \<Rightarrow> k' = k \<and> now - t < 50)"

definition handleKeydown ::
  "keydownEvent \<Rightarrow> string option \<Rightarrow> int \<Rightarrow> string \<Rightarrow> synthesizer \<Rightarrow> synthesizer" where
  "handleKeydown eventData pg now rnd s =
     (if key eventData \<in> set ignoredKeys then s
      else if duplicateKeydown s (key eventData) now then s
      else
        let s1 = s\<lparr>lastKeydownRef := Some (key eventData, now)\<rparr>;
            sel = selectorOf (target eventData)
        in
        if ctrlKey eventData \<or> altKey eventData \<or> metaKey eventData then
          let combo = comboOf eventData;
              s2 = s1\<lparr>typingBufferRef := None\<rparr>;
              newInteraction =
                \<lparr> interaction_id = makeId ''keypress'' now rnd,
                  itype = user_event,
                  timestamp = now,
                  pageId = (case pg of None \<Rightarrow> [] | Some p \<Rightarrow> p),
                  screenshotUrl = None,
                  element = (spreadTarget (target eventData))
                              \<lparr>tagName := Some ''KEYPRESS'', elemText := Some combo\<rparr>,
                  data = KeyData eventData ''keypress'' (Some combo) \<rparr>
          in s2\<lparr>interactions := interactions s2 @ [newInteraction]\<rparr>
        else if key eventData = ''Backspace'' then
          (case typingBufferRef s1 of
             None \<Rightarrow> s1
           | Some b \<Rightarrow>
               if bufferSelector b = sel \<and> now - lastTimestamp b < 3000 \<and> length (bufferText b) > 0
               then
                 let currentText = backspaceText (bufferText b);
                     s2 = s1\<lparr>typingBufferRef := Some (b\<lparr>bufferText := currentText, lastTimestamp := now\<rparr>)\<rparr>
                 in s2\<lparr>interactions := updateText (interactionId b) now currentText (interactions s2)\<rparr>
               else s1)
        else
          let char = keyText (key eventData) in
          if bufferActive s1 sel now then
            (case typingBufferRef s1 of
               None \<Rightarrow> s1
             | Some b \<Rightarrow>
                 let newText = bufferText b @ char;
                     s2 = s1\<lparr>typingBufferRef := Some (b\<lparr>bufferText := newText, lastTimestamp := now\<rparr>)\<rparr>
                 in s2\<lparr>interactions := updateText (interactionId b) now newText (interactions s2)\<rparr>)
          else
            let i = makeId ''typing'' now rnd;
                newInteraction =
                  \<lparr> interaction_id = i,
                    itype = user_event,
                    timestamp = now,
                    pageId = (case pg of None \<Rightarrow> [] | Some p \<Rightarrow> p),
                    screenshotUrl = None,
                    element = (spreadTarget (target eventData))\<lparr>elemText := Some char\<rparr>,
                    data = KeyData eventData ''keydown'' None \<rparr>;
                s2 = s1\<lparr>typingBufferRef :=
                          Some \<lparr> interactionId = i, bufferText = char, lastTimestamp = now,
                                 bufferSelector = sel \<rparr>\<rparr>
            in s2\<lparr>interactions := interactions s2 @ [newInteraction]\<rparr>)"

subsection \<open>Clicks and navigations\<close>

text \<open>
  The click branch is the same in both handlers and shares \<open>lastClickTimestampRef\<close>:
  a click less than 100 ms after the last accepted one returns at once.
\<close>

definition defaultClickTarget :: element where
  "defaultClickTarget =
     \<lparr> tagName = Some ''CLICK'', elemText = Some ''click'', selector = Some ''unknown'',
       href = None, attributes = [] \<rparr>"

definition handleClick ::
  "clickEvent \<Rightarrow> string option \<Rightarrow> int \<Rightarrow> string \<Rightarrow> synthesizer \<Rightarrow> synthesizer" where
  "handleClick eventData pg now rnd s =
     (if now - lastClickTimestampRef s < 100 then s
      else
        addInteraction user_event
          (case clickTarget eventData of None \<Rightarrow> defaultClickTarget | Some t \<Rightarrow> t)
          pg (ClickData eventData) now rnd
          (s\<lparr>lastClickTimestampRef := now\<rparr>))"

text \<open>
  \<open>Page.frameNavigated\<close> on a page connection (main frames only: no \<open>parentId\<close>), and
  \<open>screencast:frame-navigated\<close>, which has no such test.
\<close>

definition acceptNavigation ::
  "frame \<Rightarrow> string \<Rightarrow> int \<Rightarrow> string \<Rightarrow> synthesizer \<Rightarrow> synthesizer" where
  "acceptNavigation fr pg now rnd s =
     (if now - lastNavigationRefreshRef s > 1000
      then
        addInteraction frame_navigation
          \<lparr> tagName = Some ''FRAME_NAVIGATION'',
            elemText = Some (''Navigated to '' @ frameUrl fr),
            selector = Some (frameId fr),
            href = Some (frameUrl fr),
            attributes = [] \<rparr>
          (Some pg) (NavigationData (frameUrl fr) (frameId fr) (frameName fr) pg) now rnd
          (s\<lparr>lastNavigationRefreshRef := now\<rparr>)
      else s)"

definition handleFrameNavigated ::
  "frame \<Rightarrow> string \<Rightarrow> int \<Rightarrow> string \<Rightarrow> synthesizer \<Rightarrow> synthesizer" where
  "handleFrameNavigated fr pg now rnd s =
     (case parentId fr of
        None \<Rightarrow> acceptNavigation fr pg now rnd s
      | Some p \<Rightarrow> if p = [] then acceptNavigation fr pg now rnd s else s)"

definition handleScreencastFrameNavigated ::
  "frame \<Rightarrow> string \<Rightarrow> int \<Rightarrow> string \<Rightarrow> synthesizer \<Rightarrow> synthesizer" where
  "handleScreencastFrameNavigated fr pg now rnd s = acceptNavigation fr pg now rnd s"

subsection \<open>Event streams\<close>

datatype synth_event =
    Keydown keydownEvent "string option"
  | Click clickEvent "string option"
  | FrameNavigated frame string
  | ScreencastFrameNavigated frame string
  | AddInteraction interaction_type element "string option" interaction_data
  | RemoveInteraction string
  | ClearInteractions

text \<open>An event comes with the clock reading and the random digits its handler draws.\<close>

fun synthStep :: "synthesizer \<Rightarrow> int \<times> string \<times> synth_event \<Rightarrow> synthesizer" where
  "synthStep s (now, rnd, Keydown eventData pg) = handleKeydown eventData pg now rnd s"
| "synthStep s (now, rnd, Click eventData pg) = handleClick eventData pg now rnd s"
| "synthStep s (now, rnd, FrameNavigated fr pg) = handleFrameNavigated fr pg now rnd s"
| "synthStep s (now, rnd, ScreencastFrameNavigated fr pg) = handleScreencastFrameNavigated fr pg now rnd s"
| "synthStep s (now, rnd, AddInteraction typ el pg d) = addInteraction typ el pg d now rnd s"
| "synthStep s (now, rnd, RemoveInteraction i) = removeInteraction i s"
| "synthStep s (now, rnd, ClearInteractions) = clearInteractions s"

definition synthRun :: "synthesizer \<Rightarrow> (int \<times> string \<times> synth_event) list \<Rightarrow> synthesizer" where
  "synthRun s evs = foldl synthStep s evs"

subsection \<open>Predicates and example inputs used to state the synthesizer's properties\<close>

text \<open>
  \<open>typingKey\<close> holds of a keydown that reaches the typing branch of \<open>handleKeydown\<close>: no
  Ctrl, Alt or Meta, and a key that is neither one of the ignored modifier keys nor
  Backspace. \<open>plainBackspace\<close> is a Backspace without Ctrl, Alt or Meta.
  \<open>typingInteraction\<close> is the interaction a typing buffer created at \<open>created\<close> shows when
  its text is \<open>buf\<close> and its last key came at \<open>now\<close>; \<open>clickInteraction\<close> is the one
  an accepted click adds. \<open>mergedTyping sel tPrev kPrev evs\<close> holds when \<open>evs\<close> are typing
  keydowns on the selector \<open>sel\<close>, each less than 3000 ms after the one before (the first
  after \<open>tPrev\<close>) and none repeating the key before it within 50 ms; \<open>typedText\<close> is what
  they type. The constants \<open>exampleKey\<close>, \<open>exampleClick\<close>, \<open>helloEvery\<close>, \<open>hiEnter\<close>,
  \<open>abThenBackspace\<close> and \<open>typedThenClicked\<close> are concrete inputs and the states they lead
  to.
\<close>

fun isClick :: "synth_event \<Rightarrow> bool" where
  "isClick (Click _ _) = True"
| "isClick _ = False"

definition clickInteraction :: "clickEvent \<Rightarrow> string option \<Rightarrow> int \<Rightarrow> string \<Rightarrow> Interaction" where
  "clickInteraction eventData pg now rnd =
     \<lparr> interaction_id = makeId ''user_event'' now rnd,
       itype = user_event,
       timestamp = now,
       pageId = (case pg of None \<Rightarrow> [] | Some p \<Rightarrow> p),
       screenshotUrl = None,
       element = (case clickTarget eventData of None \<Rightarrow> defaultClickTarget | Some t \<Rightarrow> t),
       data = ClickData eventData \<rparr>"

definition typingKey :: "keydownEvent \<Rightarrow> bool" where
  "typingKey ev \<longleftrightarrow>
     key ev \<notin> set ignoredKeys \<and> \<not> ctrlKey ev \<and> \<not> altKey ev \<and> \<not> metaKey ev \<and>
     key ev \<noteq> ''Backspace''"

definition typingInteraction ::
  "keydownEvent \<Rightarrow> string option \<Rightarrow> string \<Rightarrow> int \<Rightarrow> string \<Rightarrow> int \<Rightarrow> Interaction" where
  "typingInteraction ev pg rnd created buf now =
     \<lparr> interaction_id = makeId ''typing'' created rnd,
       itype = user_event,
       timestamp = now,
       pageId = (case pg of None \<Rightarrow> [] | Some p \<Rightarrow> p),
       screenshotUrl = None,
       element = (spreadTarget (target ev))\<lparr>elemText := Some buf\<rparr>,
       data = KeyData ev ''keydown'' None \<rparr>"

fun mergedTyping :: "string \<Rightarrow> int \<Rightarrow> string \<Rightarrow> (int \<times> string \<times> synth_event) list \<Rightarrow> bool" where
  "mergedTyping sel tPrev kPrev [] = True"
| "mergedTyping sel tPrev kPrev ((now, rnd, Keydown ev pg) # rest) =
     (typingKey ev \<and> selectorOf (target ev) = sel \<and> now - tPrev < 3000 \<and>
      \<not> (key ev = kPrev \<and> now - tPrev < 50) \<and> mergedTyping sel now (key ev) rest)"
| "mergedTyping sel tPrev kPrev (_ # rest) = False"

fun typedText :: "(int \<times> string \<times> synth_event) list \<Rightarrow> string" where
  "typedText [] = []"
| "typedText ((now, rnd, Keydown ev pg) # rest) = keyText (key ev) @ typedText rest"
| "typedText (_ # rest) = typedText rest"

fun lastKey :: "string \<Rightarrow> (int \<times> string \<times> synth_event) list \<Rightarrow> string" where
  "lastKey k [] = k"
| "lastKey k ((now, rnd, Keydown ev pg) # rest) = lastKey (key ev) rest"
| "lastKey k (_ # rest) = lastKey k rest"

definition exampleKey :: "string \<Rightarrow> keydownEvent" where
  "exampleKey k =
     \<lparr> key = k,
       target = Some \<lparr> tagName = Some ''INPUT'', elemText = None, selector = Some ''#q'',
                       href = None, attributes = [] \<rparr>,
       ctrlKey = False, altKey = False, metaKey = False, keyFields = [] \<rparr>"

definition exampleClick :: clickEvent where
  "exampleClick = \<lparr> clickTarget = None, clickFields = [] \<rparr>"

definition helloEvery :: "int \<Rightarrow> (int \<times> string \<times> synth_event) list" where
  "helloEvery gap =
     [(1000, ''r1'', Keydown (exampleKey ''h'') None),
      (1000 + gap, ''r2'', Keydown (exampleKey ''e'') None),
      (1000 + 2 * gap, ''r3'', Keydown (exampleKey ''l'') None),
      (1000 + 3 * gap, ''r4'', Keydown (exampleKey ''l'') None),
      (1000 + 4 * gap, ''r5'', Keydown (exampleKey ''o'') None)]"

fun isKeydown :: "synth_event \<Rightarrow> bool" where
  "isKeydown (Keydown _ _) = True"
| "isKeydown _ = False"

definition plainBackspace :: "keydownEvent \<Rightarrow> bool" where
  "plainBackspace ev \<longleftrightarrow>
     key ev = ''Backspace'' \<and> \<not> ctrlKey ev \<and> \<not> altKey ev \<and> \<not> metaKey ev"

definition abThenBackspace :: synthesizer where
  "abThenBackspace =
     synthRun initialSynthesizer
       [(1000, ''r1'', Keydown (exampleKey ''a'') None),
        (1100, ''r2'', Keydown (exampleKey ''b'') None),
        (1200, ''r3'', Keydown (exampleKey ''Backspace'') None)]"

definition typedThenClicked :: synthesizer where
  "typedThenClicked =
     synthRun initialSynthesizer
       [(1000, ''r1'', Keydown (exampleKey ''a'') None),
        (1010, ''r2'', Click exampleClick None)]"

definition hiEnter :: synthesizer where
  "hiEnter =
     synthRun initialSynthesizer
       [(1000, ''r1'', Keydown (exampleKey ''h'') None),
        (1100, ''r2'', Keydown (exampleKey ''i'') None),
        (1200, ''r3'', Keydown (exampleKey ''Enter'') None)]"

subsection \<open>Lemmas about the synthesizer\<close>

lemma lastClick_handleKeydown [simp]:
  "lastClickTimestampRef (handleKeydown eventData pg now rnd s) = lastClickTimestampRef s"
  by (simp add: handleKeydown_def Let_def split: option.splits)

lemma lastClick_addInteraction [simp]:
  "lastClickTimestampRef (addInteraction typ el pg d now rnd s) = lastClickTimestampRef s"
  by (simp add: addInteraction_def Let_def)

lemma lastClick_acceptNavigation [simp]:
  "lastClickTimestampRef (acceptNavigation fr pg now rnd s) = lastClickTimestampRef s"
  by (simp add: acceptNavigation_def)

lemma lastClick_step:
  "\<not> isClick (snd (snd e)) \<Longrightarrow> lastClickTimestampRef (synthStep s e) = lastClickTimestampRef s"
proof -
  assume n: "\<not> isClick (snd (snd e))"
  obtain now rnd ev where e: "e = (now, rnd, ev)" by (cases e)
  show ?thesis
    using n unfolding e
    by (cases ev)
       (simp_all add: handleFrameNavigated_def handleScreencastFrameNavigated_def
          removeInteraction_def clearInteractions_def split: option.splits)
qed

lemma lastClick_run:
  "\<forall>e \<in> set evs. \<not> isClick (snd (snd e)) \<Longrightarrow>
   lastClickTimestampRef (synthRun s evs) = lastClickTimestampRef s"
  unfolding synthRun_def
  by (induction evs arbitrary: s) (simp_all add: lastClick_step)

lemma updateText_last:
  "i \<notin> interaction_id ` set old \<Longrightarrow> interaction_id x = i \<Longrightarrow>
   updateText i now buf (old @ [x]) =
     old @ [x\<lparr>timestamp := now, element := (element x)\<lparr>elemText := Some buf\<rparr>\<rparr>]"
  by (induction old) auto

lemma handleKeydown_new:
  assumes "typingKey ev" "\<not> duplicateKeydown s (key ev) now"
      and "\<not> bufferActive s (selectorOf (target ev)) now"
  shows "handleKeydown ev pg now rnd s =
     s\<lparr>lastKeydownRef := Some (key ev, now),
       typingBufferRef := Some \<lparr> interactionId = makeId ''typing'' now rnd,
                                bufferText = keyText (key ev), lastTimestamp = now,
                                bufferSelector = selectorOf (target ev) \<rparr>,
       interactions := interactions s @ [typingInteraction ev pg rnd now (keyText (key ev)) now]\<rparr>"
  using assms
  by (simp add: handleKeydown_def typingKey_def Let_def bufferActive_def typingInteraction_def)

lemma handleKeydown_append:
  assumes "typingKey ev" "\<not> duplicateKeydown s (key ev) now"
      and "typingBufferRef s = Some b" "bufferSelector b = selectorOf (target ev)"
      and "now - lastTimestamp b < 3000"
  shows "handleKeydown ev pg now rnd s =
     s\<lparr>lastKeydownRef := Some (key ev, now),
       typingBufferRef := Some (b\<lparr>bufferText := bufferText b @ keyText (key ev), lastTimestamp := now\<rparr>),
       interactions := updateText (interactionId b) now (bufferText b @ keyText (key ev)) (interactions s)\<rparr>"
  using assms
  by (simp add: handleKeydown_def typingKey_def Let_def bufferActive_def)

lemma typing_merge_run:
  assumes "mergedTyping sel t k later"
      and "interactions s = old @ [typingInteraction ev0 pg0 rnd0 t0 buf t]"
      and "makeId ''typing'' t0 rnd0 \<notin> interaction_id ` set old"
      and "typingBufferRef s = Some \<lparr> interactionId = makeId ''typing'' t0 rnd0, bufferText = buf,
                                      lastTimestamp = t, bufferSelector = sel \<rparr>"
      and "lastKeydownRef s = Some (k, t)"
  shows "interactions (synthRun s later) =
           old @ [typingInteraction ev0 pg0 rnd0 t0 (buf @ typedText later) (last (t # map fst later))] \<and>
         typingBufferRef (synthRun s later) =
           Some \<lparr> interactionId = makeId ''typing'' t0 rnd0, bufferText = buf @ typedText later,
                  lastTimestamp = last (t # map fst later), bufferSelector = sel \<rparr> \<and>
         lastKeydownRef (synthRun s later) = Some (lastKey k later, last (t # map fst later))"
  using assms
proof (induction later arbitrary: s buf t k)
  case Nil
  then show ?case by (simp add: synthRun_def)
next
  case (Cons e later)
  obtain now rnd se where e: "e = (now, rnd, se)" by (cases e, auto)
  obtain ev pg where se: "se = Keydown ev pg"
    using Cons.prems(1) unfolding e by (cases se) simp_all
  have m: "typingKey ev" "selectorOf (target ev) = sel" "now - t < 3000"
      "\<not> (key ev = k \<and> now - t < 50)" "mergedTyping sel now (key ev) later"
    using Cons.prems(1) unfolding e se by simp_all
  let ?b = "\<lparr> interactionId = makeId ''typing'' t0 rnd0, bufferText = buf,
               lastTimestamp = t, bufferSelector = sel \<rparr>"
  have nd: "\<not> duplicateKeydown s (key ev) now"
    using m(4) Cons.prems(5) by (simp add: duplicateKeydown_def)
  have step: "handleKeydown ev pg now rnd s =
     s\<lparr>lastKeydownRef := Some (key ev, now),
       typingBufferRef := Some (?b\<lparr>bufferText := bufferText ?b @ keyText (key ev), lastTimestamp := now\<rparr>),
       interactions := updateText (interactionId ?b) now (bufferText ?b @ keyText (key ev)) (interactions s)\<rparr>"
    using m(1) nd Cons.prems(4) m(2,3) by (intro handleKeydown_append) simp_all
  have upd: "updateText (makeId ''typing'' t0 rnd0) now (buf @ keyText (key ev)) (interactions s) =
      old @ [typingInteraction ev0 pg0 rnd0 t0 (buf @ keyText (key ev)) now]"
    unfolding Cons.prems(2)
    by (subst updateText_last [OF Cons.prems(3)]) (simp_all add: typingInteraction_def)
  let ?s1 = "synthStep s e"
  have s1: "interactions ?s1 = old @ [typingInteraction ev0 pg0 rnd0 t0 (buf @ keyText (key ev)) now]"
      "typingBufferRef ?s1 = Some \<lparr> interactionId = makeId ''typing'' t0 rnd0,
          bufferText = buf @ keyText (key ev), lastTimestamp = now, bufferSelector = sel \<rparr>"
      "lastKeydownRef ?s1 = Some (key ev, now)"
    unfolding e se using step upd by simp_all
  note ih = Cons.IH [OF m(5) s1(1) Cons.prems(3) s1(2) s1(3)]
  have "synthRun s (e # later) = synthRun ?s1 later" by (simp add: synthRun_def)
  then show ?case using ih unfolding e se by simp
qed

lemma mergedTyping_take: "mergedTyping sel t k later \<Longrightarrow> mergedTyping sel t k (take n later)"
proof (induction sel t k later arbitrary: n rule: mergedTyping.induct)
  case (2 sel tPrev kPrev now rnd ev pg rest)
  then show ?case by (cases n) simp_all
qed simp_all

lemmas synth_eval =
  synthRun_def handleKeydown_def handleClick_def addInteraction_def acceptNavigation_def
  handleFrameNavigated_def handleScreencastFrameNavigated_def removeInteraction_def
  clearInteractions_def initialSynthesizer_def ignoredKeys_def duplicateKeydown_def
  bufferActive_def selectorOf_def spreadTarget_def keyText_def backspaceText_def
  typingInteraction_def exampleKey_def exampleClick_def Let_def

lemma lastIndexOf_None: "c \<notin> set xs \<Longrightarrow> lastIndexOf c xs = None"
  by (induction xs) auto

lemma lastIndexOf_append: "c \<notin> set ys \<Longrightarrow> lastIndexOf c (xs @ c # ys) = Some (length xs)"
  by (induction xs) (auto simp: lastIndexOf_None)

lemma backspaceText_unit:
  assumes "k \<noteq> '']''" and "length k \<noteq> 1 \<longrightarrow> CHR ''['' \<notin> set k"
  shows "backspaceText (pre @ keyText k) = pre"
proof (cases "length k = 1")
  case True
  then obtain c where k: "k = [c]" by (cases k) auto
  then have "c \<noteq> CHR '']''" using assms(1) by simp
  then show ?thesis by (simp add: k keyText_def backspaceText_def)
next
  case False
  then have "CHR ''['' \<notin> set (k @ '']'')" using assms(2) by simp
  then have "lastIndexOf (CHR ''['') (pre @ CHR ''['' # (k @ '']'')) = Some (length pre)"
    by (rule lastIndexOf_append)
  then show ?thesis using False by (simp add: keyText_def backspaceText_def)
qed

lemma keyText_nonempty: "keyText k \<noteq> []"
  by (cases k) (simp_all add: keyText_def)

lemma ids_updateText [simp]:
  "map interaction_id (updateText i now newText xs) = map interaction_id xs"
  by (induction xs) auto

lemma updateText_middle:
  "i \<notin> interaction_id ` set old \<Longrightarrow> interaction_id x = i \<Longrightarrow>
   updateText i now newText (old @ x # rest) =
     old @ x\<lparr>timestamp := now, element := (element x)\<lparr>elemText := Some newText\<rparr>\<rparr> # rest"
  by (induction old) auto

lemma backspace_keeps_ids:
  "plainBackspace ev \<Longrightarrow>
   map interaction_id (interactions (handleKeydown ev pg now rnd s)) = map interaction_id (interactions s)"
  by (simp add: handleKeydown_def plainBackspace_def Let_def split: option.splits)

lemma hiEnter_eval:
  "hiEnter =
     \<lparr> interactions = [typingInteraction (exampleKey ''h'') None ''r1'' 1000 ''hi[Enter]'' 1200],
       typingBufferRef = Some \<lparr> interactionId = makeId ''typing'' 1000 ''r1'',
          bufferText = ''hi[Enter]'', lastTimestamp = 1200, bufferSelector = ''#q'' \<rparr>,
       lastNavigationRefreshRef = 0, lastClickTimestampRef = 0,
       lastKeydownRef = Some (''Enter'', 1200) \<rparr>"
  by (simp add: hiEnter_def synth_eval)

lemma buffer_addInteraction [simp]:
  "typingBufferRef (addInteraction typ el pg d now rnd s) = None"
  by (simp add: addInteraction_def Let_def)

lemma lastKeydown_addInteraction [simp]:
  "lastKeydownRef (addInteraction typ el pg d now rnd s) = lastKeydownRef s"
  by (simp add: addInteraction_def Let_def)

lemma quiet_step:
  assumes "\<not> isKeydown (snd (snd e))" "typingBufferRef s = None"
  shows "typingBufferRef (synthStep s e) = None \<and> lastKeydownRef (synthStep s e) = lastKeydownRef s"
proof -
  obtain now rnd ev where e: "e = (now, rnd, ev)" by (cases e)
  show ?thesis
    using assms unfolding e
    by (cases ev)
       (simp_all add: handleClick_def acceptNavigation_def handleFrameNavigated_def
          handleScreencastFrameNavigated_def removeInteraction_def clearInteractions_def
          split: option.splits)
qed

lemma quiet_run:
  "\<forall>e \<in> set evs. \<not> isKeydown (snd (snd e)) \<Longrightarrow> typingBufferRef s = None \<Longrightarrow>
   typingBufferRef (synthRun s evs) = None \<and> lastKeydownRef (synthRun s evs) = lastKeydownRef s"
  unfolding synthRun_def
proof (induction evs arbitrary: s)
  case Nil
  then show ?case by simp
next
  case (Cons e evs)
  have q: "typingBufferRef (synthStep s e) = None \<and> lastKeydownRef (synthStep s e) = lastKeydownRef s"
    using Cons.prems by (intro quiet_step) simp_all
  then show ?case using Cons.IH [of "synthStep s e"] Cons.prems(1) by simp
qed

subsection \<open>Properties of the synthesizer\<close>

text \<open>
  Claim C9. Let a click be accepted at time \<open>t1\<close> (it adds its interaction), and let any
  events other than clicks follow it. A second click at time \<open>t2\<close>, on the same page or on
  another, is dropped when it comes less than 100 ms after the first: the state, and so
  the list of interactions, is unchanged. It is accepted and adds its own interaction
  when it comes 100 ms or more after the first, in particular 150 ms or more.
\<close>

theorem click_deduplication:
  assumes "\<not> t1 - lastClickTimestampRef s < 100"
      and "\<forall>e \<in> set between. \<not> isClick (snd (snd e))"
      and "s1 = synthRun (handleClick ev1 pg1 t1 r1 s) between"
  shows "interactions (handleClick ev1 pg1 t1 r1 s) = interactions s @ [clickInteraction ev1 pg1 t1 r1] \<and>
         (t2 - t1 < 100 \<longrightarrow> handleClick ev2 pg2 t2 r2 s1 = s1) \<and>
         (100 \<le> t2 - t1 \<longrightarrow>
            interactions (handleClick ev2 pg2 t2 r2 s1) = interactions s1 @ [clickInteraction ev2 pg2 t2 r2])"
proof -
  have "lastClickTimestampRef (handleClick ev1 pg1 t1 r1 s) = t1"
    using assms(1) by (simp add: handleClick_def)
  then have l: "lastClickTimestampRef s1 = t1"
    using lastClick_run [OF assms(2)] by (simp add: assms(3))
  show ?thesis
    using assms(1) l
    by (simp add: handleClick_def addInteraction_def clickInteraction_def Let_def)
qed

theorem click_deduplication_witness:
  "handleClick exampleClick None 1050 ''r3''
     (synthRun (handleClick exampleClick None 1000 ''r1'' initialSynthesizer)
        [(1020, ''r2'', Keydown (exampleKey ''a'') None)])
   = synthRun (handleClick exampleClick None 1000 ''r1'' initialSynthesizer)
        [(1020, ''r2'', Keydown (exampleKey ''a'') None)] \<and>
   map interaction_id
     (interactions
        (handleClick exampleClick None 1150 ''r3''
           (synthRun (handleClick exampleClick None 1000 ''r1'' initialSynthesizer)
              [(1020, ''r2'', Keydown (exampleKey ''a'') None)])))
   = [makeId ''user_event'' 1000 ''r1'', makeId ''typing'' 1020 ''r2'', makeId ''user_event'' 1150 ''r3'']"
proof -
  have h1: "\<not> 1000 - lastClickTimestampRef initialSynthesizer < 100"
    by (simp add: initialSynthesizer_def)
  have h2: "\<forall>e \<in> set [(1020::int, ''r2'', Keydown (exampleKey ''a'') None)]. \<not> isClick (snd (snd e))"
    by simp
  have i: "map interaction_id
      (interactions (synthRun (handleClick exampleClick None 1000 ''r1'' initialSynthesizer)
         [(1020, ''r2'', Keydown (exampleKey ''a'') None)]))
      = [makeId ''user_event'' 1000 ''r1'', makeId ''typing'' 1020 ''r2'']"
    by (simp add: synth_eval)
  show ?thesis
    using click_deduplication [OF h1 h2 refl, of exampleClick None "''r1''" 1050 exampleClick None "''r3''"]
      click_deduplication [OF h1 h2 refl, of exampleClick None "''r1''" 1150 exampleClick None "''r3''"] i
    by (simp add: clickInteraction_def)
qed

text \<open>
  Claim C7, as amended. Let a typing keydown (no Ctrl, Alt or Meta, not a bare modifier
  key, not Backspace) arrive at time \<open>t\<close> when no buffer is active for its selector, not
  dropped as a duplicate, and with an interaction id that is not in use. Let further
  typing keydowns on the same selector follow, each less than 3 seconds after the one
  before and none repeating the key before it within 50 ms. After every prefix of that
  sequence the interactions are the earlier ones followed by exactly one new
  interaction, whose text is the keys typed so far in order (a key of more than one
  character written in brackets) and whose timestamp is that of the last key. A typing
  keydown that arrives 3 seconds or more after the last key adds a second interaction.
\<close>

theorem typing_merges_into_one_interaction:
  assumes "typingKey ev" and "\<not> duplicateKeydown s (key ev) t"
      and "\<not> bufferActive s (selectorOf (target ev)) t"
      and "makeId ''typing'' t rnd \<notin> interaction_id ` set (interactions s)"
      and "mergedTyping (selectorOf (target ev)) t (key ev) later"
      and "s' = synthRun s ((t, rnd, Keydown ev pg) # take n later)"
      and "typingKey ev'" and "3000 \<le> t' - last (t # map fst (take n later))"
  shows "interactions s' =
           interactions s @
             [typingInteraction ev pg rnd t (keyText (key ev) @ typedText (take n later))
                (last (t # map fst (take n later)))] \<and>
         interactions (handleKeydown ev' pg' t' rnd' s') =
           interactions s' @ [typingInteraction ev' pg' rnd' t' (keyText (key ev')) t']"
proof -
  let ?sel = "selectorOf (target ev)"
  let ?s1 = "handleKeydown ev pg t rnd s"
  note first = handleKeydown_new [OF assms(1-3), of pg rnd]
  have run: "s' = synthRun ?s1 (take n later)"
    by (simp add: assms(6) synthRun_def)
  have m: "mergedTyping ?sel t (key ev) (take n later)"
    using assms(5) by (rule mergedTyping_take)
  have i1: "interactions ?s1 = interactions s @ [typingInteraction ev pg rnd t (keyText (key ev)) t]"
    and b1: "typingBufferRef ?s1 = Some \<lparr> interactionId = makeId ''typing'' t rnd,
          bufferText = keyText (key ev), lastTimestamp = t, bufferSelector = ?sel \<rparr>"
    and k1: "lastKeydownRef ?s1 = Some (key ev, t)"
    by (simp_all add: first)
  note r = typing_merge_run [OF m i1 assms(4) b1 k1, folded run]
  have nd: "\<not> duplicateKeydown s' (key ev') t'"
    using r assms(8) by (simp add: duplicateKeydown_def)
  have nb: "\<not> bufferActive s' (selectorOf (target ev')) t'"
    using r assms(8) by (simp add: bufferActive_def)
  show ?thesis
    using r handleKeydown_new [OF assms(7) nd nb, of pg' rnd'] by simp
qed

theorem typing_merges_into_one_interaction_witness:
  "map (elemText \<circ> element)
     (interactions (synthRun initialSynthesizer ((1000, ''r1'', Keydown (exampleKey ''h'') None) #
         take 4 (tl (helloEvery 100))))) = [Some ''hello''] \<and>
   map (elemText \<circ> element)
     (interactions (handleKeydown (exampleKey ''!'') None 5400 ''r6''
        (synthRun initialSynthesizer ((1000, ''r1'', Keydown (exampleKey ''h'') None) #
           take 4 (tl (helloEvery 100)))))) = [Some ''hello'', Some ''!'']"
proof -
  have h1: "typingKey (exampleKey ''h'')" by (simp add: typingKey_def exampleKey_def ignoredKeys_def)
  have h2: "\<not> duplicateKeydown initialSynthesizer (key (exampleKey ''h'')) 1000"
    by (simp add: duplicateKeydown_def initialSynthesizer_def)
  have h3: "\<not> bufferActive initialSynthesizer (selectorOf (target (exampleKey ''h''))) 1000"
    by (simp add: bufferActive_def initialSynthesizer_def)
  have h4: "makeId ''typing'' 1000 ''r1'' \<notin> interaction_id ` set (interactions initialSynthesizer)"
    by (simp add: initialSynthesizer_def)
  have h5: "mergedTyping (selectorOf (target (exampleKey ''h''))) 1000 (key (exampleKey ''h''))
      (tl (helloEvery 100))"
    by (simp add: helloEvery_def typingKey_def exampleKey_def ignoredKeys_def selectorOf_def)
  have h7: "typingKey (exampleKey ''!'')" by (simp add: typingKey_def exampleKey_def ignoredKeys_def)
  have h8: "3000 \<le> 5400 - last (1000 # map fst (take 4 (tl (helloEvery 100))))"
    by (simp add: helloEvery_def)
  show ?thesis
    using typing_merges_into_one_interaction [OF h1 h2 h3 h4 h5 refl h7 h8, of None None "''r6''"]
    by (simp add: helloEvery_def typingInteraction_def keyText_def exampleKey_def initialSynthesizer_def)
qed

text \<open>
  The claim as it is stated fails: the keys h, e, l, l, o typed on one selector 10 ms
  apart are all within the merge window, but the second l repeats the key before it
  within 50 ms and is dropped by the keydown de-duplication, so the text ends as helo.
\<close>

theorem fast_double_letter_is_dropped:
  "map (elemText \<circ> element) (interactions (synthRun initialSynthesizer (helloEvery 10)))
     = [Some ''helo'']"
  by (simp add: helloEvery_def synth_eval)

text \<open>
  Claim C8, as amended. A Backspace without Ctrl, Alt or Meta never changes which
  interactions there are, whatever the state. When a buffer is active for the selector
  of the Backspace, its last update is less than 3 seconds old, the Backspace is not
  dropped as a duplicate, and the buffered text ends with the unit appended for a key
  \<open>k\<close> other than a typed closing bracket (the key itself, or the key's name in brackets),
  the Backspace removes exactly that unit from the buffer, and rewrites the text and the
  timestamp of the interaction the buffer extends, in place.
\<close>

theorem backspace_removes_last_unit:
  assumes "plainBackspace ev"
  shows "map interaction_id (interactions (handleKeydown ev pg now rnd s))
           = map interaction_id (interactions s) \<and>
         (typingBufferRef s = Some b \<and> bufferSelector b = selectorOf (target ev) \<and>
          now - lastTimestamp b < 3000 \<and> \<not> duplicateKeydown s (key ev) now \<and>
          bufferText b = pre @ keyText k \<and> k \<noteq> '']'' \<and> (length k \<noteq> 1 \<longrightarrow> CHR ''['' \<notin> set k)
          \<longrightarrow>
            typingBufferRef (handleKeydown ev pg now rnd s)
              = Some (b\<lparr>bufferText := pre, lastTimestamp := now\<rparr>) \<and>
            interactions (handleKeydown ev pg now rnd s)
              = updateText (interactionId b) now pre (interactions s) \<and>
            (\<forall>old x rest.
               interactions s = old @ x # rest \<and> interaction_id x = interactionId b \<and>
               interactionId b \<notin> interaction_id ` set old \<longrightarrow>
               interactions (handleKeydown ev pg now rnd s)
                 = old @ x\<lparr>timestamp := now, element := (element x)\<lparr>elemText := Some pre\<rparr>\<rparr> # rest))"
proof (intro conjI impI)
  show "map interaction_id (interactions (handleKeydown ev pg now rnd s))
      = map interaction_id (interactions s)"
    using assms by (rule backspace_keeps_ids)
next
  assume h: "typingBufferRef s = Some b \<and> bufferSelector b = selectorOf (target ev) \<and>
          now - lastTimestamp b < 3000 \<and> \<not> duplicateKeydown s (key ev) now \<and>
          bufferText b = pre @ keyText k \<and> k \<noteq> '']'' \<and> (length k \<noteq> 1 \<longrightarrow> CHR ''['' \<notin> set k)"
  then have bt: "backspaceText (bufferText b) = pre" and ne: "bufferText b \<noteq> []"
    by (simp_all add: backspaceText_unit keyText_nonempty)
  have ig: "''Backspace'' \<notin> set ignoredKeys" by (simp add: ignoredKeys_def)
  have r: "handleKeydown ev pg now rnd s =
      s\<lparr>lastKeydownRef := Some (key ev, now),
        typingBufferRef := Some (b\<lparr>bufferText := pre, lastTimestamp := now\<rparr>),
        interactions := updateText (interactionId b) now pre (interactions s)\<rparr>"
    using assms h bt ne ig by (simp add: handleKeydown_def plainBackspace_def Let_def)
  show "typingBufferRef (handleKeydown ev pg now rnd s)
      = Some (b\<lparr>bufferText := pre, lastTimestamp := now\<rparr>)"
    by (simp add: r)
  show i: "interactions (handleKeydown ev pg now rnd s)
      = updateText (interactionId b) now pre (interactions s)"
    by (simp add: r)
  show "\<forall>old x rest.
      interactions s = old @ x # rest \<and> interaction_id x = interactionId b \<and>
      interactionId b \<notin> interaction_id ` set old \<longrightarrow>
      interactions (handleKeydown ev pg now rnd s)
        = old @ x\<lparr>timestamp := now, element := (element x)\<lparr>elemText := Some pre\<rparr>\<rparr> # rest"
    by (auto simp: i updateText_middle)
qed

theorem backspace_removes_last_unit_witness:
  "map (elemText \<circ> element)
     (interactions (handleKeydown (exampleKey ''Backspace'') None 1300 ''r4'' hiEnter)) = [Some ''hi'']"
proof -
  let ?b = "\<lparr> interactionId = makeId ''typing'' 1000 ''r1'',
          bufferText = ''hi[Enter]'', lastTimestamp = 1200, bufferSelector = ''#q'' \<rparr>"
  have p: "plainBackspace (exampleKey ''Backspace'')"
    by (simp add: plainBackspace_def exampleKey_def)
  have h: "typingBufferRef hiEnter = Some ?b \<and>
      bufferSelector ?b = selectorOf (target (exampleKey ''Backspace'')) \<and>
      1300 - lastTimestamp ?b < 3000 \<and>
      \<not> duplicateKeydown hiEnter (key (exampleKey ''Backspace'')) 1300 \<and>
      bufferText ?b = ''hi'' @ keyText ''Enter'' \<and> ''Enter'' \<noteq> '']'' \<and>
      (length ''Enter'' \<noteq> 1 \<longrightarrow> CHR ''['' \<notin> set ''Enter'')"
    by (simp add: hiEnter_eval exampleKey_def selectorOf_def duplicateKeydown_def keyText_def)
  have "interactions (handleKeydown (exampleKey ''Backspace'') None 1300 ''r4'' hiEnter)
      = updateText (interactionId ?b) 1300 ''hi'' (interactions hiEnter)"
    using backspace_removes_last_unit [OF p, of None 1300 "''r4''" hiEnter ?b "''hi''" "''Enter''"] h
    by blast
  then show ?thesis
    by (simp add: hiEnter_eval typingInteraction_def)
qed

text \<open>
  The claim as it is stated fails: after a, b and a Backspace the buffer holds the text
  a and is active; a second Backspace on the same selector 10 ms later repeats the last
  key within 50 ms and is dropped: the state is unchanged and nothing is removed.
\<close>

theorem repeated_backspace_is_dropped:
  "typingBufferRef abThenBackspace =
     Some \<lparr> interactionId = makeId ''typing'' 1000 ''r1'', bufferText = ''a'',
            lastTimestamp = 1200, bufferSelector = ''#q'' \<rparr> \<and>
   handleKeydown (exampleKey ''Backspace'') None 1210 ''r4'' abThenBackspace = abThenBackspace"
  by (simp add: abThenBackspace_def synth_eval)

text \<open>
  Claim C10, as amended. Every call of \<open>addInteraction\<close> leaves the typing buffer empty,
  and so do an accepted click and an accepted navigation. After such a call and any
  events other than keydowns, the buffer is still empty, and the next typing keydown
  that is not dropped as a duplicate of the last accepted keydown (the same key less
  than 50 ms before) adds a new typing interaction, whatever its selector and however
  recent the buffer that was cleared.
\<close>

theorem addInteraction_clears_typing_buffer:
  assumes "\<forall>e \<in> set between. \<not> isKeydown (snd (snd e))"
      and "s1 = synthRun (addInteraction typ el pg d now rnd s) between"
      and "typingKey ev" and "\<not> duplicateKeydown s (key ev) now'"
  shows "typingBufferRef (addInteraction typ el pg d now rnd s) = None \<and>
         (\<not> now - lastClickTimestampRef s < 100 \<longrightarrow>
            typingBufferRef (handleClick cev cpg now rnd s) = None) \<and>
         (now - lastNavigationRefreshRef s > 1000 \<longrightarrow>
            typingBufferRef (acceptNavigation fr npg now rnd s) = None) \<and>
         typingBufferRef s1 = None \<and>
         interactions (handleKeydown ev pg' now' rnd' s1)
           = interactions s1 @ [typingInteraction ev pg' rnd' now' (keyText (key ev)) now']"
proof -
  have q: "typingBufferRef s1 = None" "lastKeydownRef s1 = lastKeydownRef s"
    using quiet_run [OF assms(1), of "addInteraction typ el pg d now rnd s"]
    by (simp_all add: assms(2))
  have nd: "\<not> duplicateKeydown s1 (key ev) now'"
    using assms(4) q(2) by (simp add: duplicateKeydown_def)
  have nb: "\<not> bufferActive s1 (selectorOf (target ev)) now'"
    using q(1) by (simp add: bufferActive_def)
  show ?thesis
    using q(1) handleKeydown_new [OF assms(3) nd nb, of pg' rnd']
    by (simp add: handleClick_def acceptNavigation_def)
qed

theorem addInteraction_clears_typing_buffer_witness:
  "map (elemText \<circ> element)
     (interactions
        (handleKeydown (exampleKey ''b'') None 1500 ''r3''
           (synthRun
              (addInteraction user_event defaultClickTarget None NoData 1200 ''r2''
                 (synthRun initialSynthesizer [(1000, ''r1'', Keydown (exampleKey ''a'') None)]))
              [(1300, ''r9'', RemoveInteraction ''none'')])))
   = [Some ''a'', Some ''click'', Some ''b'']"
proof -
  let ?s = "synthRun initialSynthesizer [(1000, ''r1'', Keydown (exampleKey ''a'') None)]"
  have h1: "\<forall>e \<in> set [(1300::int, ''r9'', RemoveInteraction ''none'')]. \<not> isKeydown (snd (snd e))"
    by simp
  have h3: "typingKey (exampleKey ''b'')" by (simp add: typingKey_def exampleKey_def ignoredKeys_def)
  have h4: "\<not> duplicateKeydown ?s (key (exampleKey ''b'')) 1500"
    by (simp add: synth_eval)
  have i: "map (elemText \<circ> element)
      (interactions (synthRun (addInteraction user_event defaultClickTarget None NoData 1200 ''r2'' ?s)
         [(1300, ''r9'', RemoveInteraction ''none'')])) = [Some ''a'', Some ''click'']"
    by (simp add: synth_eval defaultClickTarget_def makeId_def)
  show ?thesis
    using addInteraction_clears_typing_buffer [OF h1 refl h3 h4, where pg' = None and rnd' = "''r3''"] i
    by (simp add: typingInteraction_def keyText_def exampleKey_def)
qed

text \<open>
  The claim as it is stated fails: the key a typed at 1000, a click accepted at 1010
  (which calls \<open>addInteraction\<close> and clears the buffer) and the key a again at 1020. The
  second a is a typing keydown, but it repeats the last accepted key within 50 ms and is
  dropped: no typing interaction is started.
\<close>

theorem keydown_after_click_is_dropped:
  "typingKey (exampleKey ''a'') \<and>
   typingBufferRef typedThenClicked = None \<and>
   length (interactions typedThenClicked) = 2 \<and>
   handleKeydown (exampleKey ''a'') None 1020 ''r3'' typedThenClicked = typedThenClicked"
  by (simp add: typedThenClicked_def typingKey_def synth_eval)

section \<open>Protocol bridge\<close>

text \<open>
  The command side of the hook \<open>useBrowserCDP\<close>: \<open>send\<close> on the control connection with
  its 30-second timer, the block that settles pending commands in the \<open>onmessage\<close>
  handler of the control connection and of every page connection, \<open>executeCommand\<close> of
  \<open>sendToPage\<close> with its message listener and its timer, and every other place that
  draws a command id: the keep-alive timers, the target discovery sent when the control
  connection opens, the title and favicon queries, and the three set-up commands a page
  connection sends when it opens (numbered by \<open>msgId\<close>, a counter of that connection
  which starts at 1000). Modelling decisions:
  \<^item> a \<open>WebSocket\<close> object is named by a number; opening, closing and replacing
    connections is not modelled: where the code tests \<open>readyState\<close>, the event says
    whether the socket is open (for \<open>wsRef.current\<close>: \<open>Some\<close> of the open socket or
    \<open>None\<close>);
  \<^item> ids are unbounded integers (a JavaScript number counts exactly up to \<open>2^53\<close>);
  \<^item> a promise is named by the number of its creation; \<open>settled\<close> lists every call
    of a \<open>resolve\<close> or \<open>reject\<close> in order, and \<open>sent\<close> every \<open>ws.send\<close>, with
    \<open>outShared\<close> telling whether the id came from \<open>messageIdRef\<close>;
  \<^item> the callbacks registered with \<open>setTimeout\<close> by \<open>send\<close> and \<open>executeCommand\<close> are
    kept in \<open>sendTimers\<close> and \<open>pageTimers\<close> until they run, and the listeners added by
    \<open>executeCommand\<close> in \<open>pageListeners\<close> until they are removed;
  \<^item> the branches of a page connection's \<open>onmessage\<close> that feed the synthesizer are
    in the section above; the listeners of the title and favicon queries only call
    outward callbacks and are not kept; in \<open>sendToPage\<close>, only the path on which
    \<open>executeCommand\<close> runs is modelled.
\<close>

type_synonym CDPParams = "(string \<times> string) list"

type_synonym CDPResult = "(string \<times> string) list"

record CDPError =
  errCode :: int
  errMessage :: string

record CDPMessage =
  msgId :: "int option"
  msgMethod :: "string option"
  msgParams :: "CDPParams option"
  msgResult :: "CDPResult option"
  msgError :: "CDPError option"

text \<open>What \<open>JSON.parse\<close> makes of the data of a message event, or its failure.\<close>

datatype wire = Malformed | Parsed CDPMessage

datatype outcome = Resolved CDPResult | Rejected string

record outgoing =
  outSocket :: nat
  outId :: int
  outMethod :: string
  outParams :: "CDPParams option"
  outShared :: bool

record sendTimer =
  stId :: int
  stMethod :: string
  stPromise :: nat
  stDelay :: int

record pageListener =
  plSocket :: nat
  plId :: int
  plPromise :: nat

record pageTimer =
  ptSocket :: nat
  ptId :: int
  ptMethod :: string
  ptPromise :: nat
  ptDelay :: int

record bridge =
  messageIdRef :: int
  pendingRequestsRef :: "int \<rightharpoonup> nat"
  pageMsgId :: "nat \<Rightarrow> int"
  promises :: nat
  settled :: "(nat \<times> outcome) list"
  sent :: "outgoing list"
  sendTimers :: "sendTimer list"
  pageListeners :: "pageListener list"
  pageTimers :: "pageTimer list"

definition initialBridge :: bridge where
  "initialBridge =
     \<lparr> messageIdRef = 1, pendingRequestsRef = Map.empty, pageMsgId = (\<lambda>_. 1000), promises = 0,
       settled = [], sent = [], sendTimers = [], pageListeners = [], pageTimers = [] \<rparr>"

text \<open>\<open>messageIdRef.current++\<close>\<close>

definition nextMessageId :: "bridge \<Rightarrow> int \<times> bridge" where
  "nextMessageId s = (messageIdRef s, s\<lparr>messageIdRef := messageIdRef s + 1\<rparr>)"

definition wsSend :: "nat \<Rightarrow> int \<Rightarrow> string \<Rightarrow> CDPParams option \<Rightarrow> bool \<Rightarrow> bridge \<Rightarrow> bridge" where
  "wsSend ws i method params shared s =
     s\<lparr>sent := sent s @
        [\<lparr> outSocket = ws, outId = i, outMethod = method, outParams = params, outShared = shared \<rparr>]\<rparr>"

subsection \<open>send and the control connection\<close>

definition send :: "nat option \<Rightarrow> string \<Rightarrow> CDPParams option \<Rightarrow> bridge \<Rightarrow> bridge" where
  "send wsRef method params s =
     (let p = promises s;
          s0 = s\<lparr>promises := Suc p\<rparr>
      in case wsRef of
           None \<Rightarrow> s0\<lparr>settled := settled s0 @ [(p, Rejected ''WebSocket not connected'')]\<rparr>
         | Some ws \<Rightarrow>
             let (i, s1) = nextMessageId s0;
                 s2 = s1\<lparr>pendingRequestsRef := (pendingRequestsRef s1)(i \<mapsto> p)\<rparr>;
                 s3 = s2\<lparr>sendTimers := sendTimers s2 @
                          [\<lparr> stId = i, stMethod = method, stPromise = p, stDelay = 30000 \<rparr>]\<rparr>
             in wsSend ws i method params True s3)"

text \<open>\<open>message.error\<close> rejects with its message; otherwise \<open>message.result || {}\<close> resolves.\<close>

definition outcomeOf :: "CDPMessage \<Rightarrow> outcome" where
  "outcomeOf m =
     (case msgError m of
        Some e \<Rightarrow> Rejected (errMessage e)
      | None \<Rightarrow> Resolved (case msgResult m of None \<Rightarrow> [] | Some r \<Rightarrow> r))"

text \<open>The block ``handle pending CDP command responses'', the same in both handlers.\<close>

definition deliverPending :: "CDPMessage \<Rightarrow> bridge \<Rightarrow> bridge" where
  "deliverPending m s =
     (case msgId m of
        None \<Rightarrow> s
      | Some i \<Rightarrow>
          (case pendingRequestsRef s i of
             None \<Rightarrow> s
           | Some p \<Rightarrow>
               let s1 = s\<lparr>pendingRequestsRef := (pendingRequestsRef s)(i := None)\<rparr>
               in s1\<lparr>settled := settled s1 @ [(p, outcomeOf m)]\<rparr>))"

text \<open>
  \<open>onmessage\<close> of the control connection. A \<open>Target.targetCreated\<close> event only calls
  \<open>onNewTabDetected\<close>; a message that does not parse is logged and dropped.
\<close>

definition controlOnMessage :: "wire \<Rightarrow> bridge \<Rightarrow> bridge" where
  "controlOnMessage w s = (case w of Malformed \<Rightarrow> s | Parsed m \<Rightarrow> deliverPending m s)"

text \<open>The callback of the timer set by \<open>send\<close> for the command \<open>i\<close>; it runs once.\<close>

definition sendTimeoutFires :: "int \<Rightarrow> bridge \<Rightarrow> bridge" where
  "sendTimeoutFires i s =
     (case find (\<lambda>t. stId t = i) (sendTimers s) of
        None \<Rightarrow> s
      | Some t \<Rightarrow>
          let s1 = s\<lparr>sendTimers := remove1 t (sendTimers s)\<rparr>
          in if pendingRequestsRef s1 (stId t) \<noteq> None
             then s1\<lparr>pendingRequestsRef := (pendingRequestsRef s1)(stId t := None),
                     settled := settled s1 @
                       [(stPromise t, Rejected (''CDP command timeout: '' @ stMethod t))]\<rparr>
             else s1)"

definition controlOnOpen :: "nat \<Rightarrow> bridge \<Rightarrow> bridge" where
  "controlOnOpen ws s =
     (let (discoverMsgId, s1) = nextMessageId s
      in wsSend ws discoverMsgId ''Target.setDiscoverTargets'' (Some [(''discover'', ''true'')]) True s1)"

text \<open>A tick of a keep-alive timer, of the control connection or of a page connection.\<close>

definition keepAlive :: "nat option \<Rightarrow> bridge \<Rightarrow> bridge" where
  "keepAlive openWs s =
     (case openWs of
        None \<Rightarrow> s
      | Some ws \<Rightarrow>
          let (i, s1) = nextMessageId s
          in wsSend ws i ''Runtime.evaluate''
               (Some [(''expression'', ''1''), (''returnByValue'', ''true'')]) True s1)"

subsection \<open>Page connections\<close>

definition pageOnOpen :: "nat \<Rightarrow> bridge \<Rightarrow> bridge" where
  "pageOnOpen ws s =
     (let msgId = pageMsgId s ws;
          s1 = wsSend ws msgId ''Page.enable'' None False s;
          s2 = wsSend ws (msgId + 1) ''Runtime.enable'' None False s1;
          s3 = wsSend ws (msgId + 2) ''Runtime.addBinding'' (Some [(''name'', ''__cdpEvent'')]) False s2
      in s3\<lparr>pageMsgId := (pageMsgId s3)(ws := msgId + 3)\<rparr>)"

text \<open>
  The JavaScript expression of the favicon query (it looks for a \<open>link\<close> element of
  relation \<open>icon\<close> and falls back to \<open>/favicon.ico\<close>) is sent as it is and never read
  by the bridge; its text is abridged here.
\<close>

definition faviconExpression :: string where
  "faviconExpression = ''(function() { ... })()''"

definition queryTitleAndFavicon :: "nat \<Rightarrow> bridge \<Rightarrow> bridge" where
  "queryTitleAndFavicon ws s =
     (let (titleMsgId, s1) = nextMessageId s;
          (faviconMsgId, s2) = nextMessageId s1;
          s3 = wsSend ws titleMsgId ''Runtime.evaluate''
                 (Some [(''expression'', ''document.title''), (''returnByValue'', ''true'')]) True s2
      in wsSend ws faviconMsgId ''Runtime.evaluate''
           (Some [(''expression'', faviconExpression), (''returnByValue'', ''true'')]) True s3)"

text \<open>\<open>onmessage\<close> of a page connection: pending commands, then the page-load events.\<close>

definition pageOnMessage :: "nat \<Rightarrow> wire \<Rightarrow> bool \<Rightarrow> bridge \<Rightarrow> bridge" where
  "pageOnMessage ws w isOpen s =
     (case w of
        Malformed \<Rightarrow> s
      | Parsed m \<Rightarrow>
          let s1 = deliverPending m s
          in if (msgMethod m = Some ''Page.loadEventFired'' \<or>
                 msgMethod m = Some ''Page.domContentEventFired'') \<and> isOpen
             then queryTitleAndFavicon ws s1
             else s1)"

text \<open>
  The listeners \<open>handleMessage\<close> that \<open>executeCommand\<close> added to the socket, run after
  \<open>onmessage\<close>: one whose id is the message's removes itself and settles its promise.
\<close>

definition runPageListeners :: "nat \<Rightarrow> wire \<Rightarrow> bridge \<Rightarrow> bridge" where
  "runPageListeners ws w s =
     (case w of
        Malformed \<Rightarrow> s
      | Parsed m \<Rightarrow>
          (case msgId m of
             None \<Rightarrow> s
           | Some i \<Rightarrow>
               let hit = filter (\<lambda>l. plSocket l = ws \<and> plId l = i) (pageListeners s);
                   s1 = s\<lparr>pageListeners :=
                            filter (\<lambda>l. \<not> (plSocket l = ws \<and> plId l = i)) (pageListeners s)\<rparr>
               in s1\<lparr>settled := settled s1 @ map (\<lambda>l. (plPromise l, outcomeOf m)) hit\<rparr>))"

definition executeCommand :: "nat \<Rightarrow> string \<Rightarrow> CDPParams option \<Rightarrow> bridge \<Rightarrow> bridge" where
  "executeCommand pageWs method params s =
     (let p = promises s;
          s0 = s\<lparr>promises := Suc p\<rparr>;
          (i, s1) = nextMessageId s0;
          s2 = s1\<lparr>pageListeners := pageListeners s1 @
                   [\<lparr> plSocket = pageWs, plId = i, plPromise = p \<rparr>]\<rparr>;
          s3 = wsSend pageWs i method params True s2
      in s3\<lparr>pageTimers := pageTimers s3 @
              [\<lparr> ptSocket = pageWs, ptId = i, ptMethod = method, ptPromise = p, ptDelay = 30000 \<rparr>]\<rparr>)"

text \<open>The callback of the timer set by \<open>executeCommand\<close>: it rejects without a test.\<close>

definition pageTimeoutFires :: "int \<Rightarrow> bridge \<Rightarrow> bridge" where
  "pageTimeoutFires i s =
     (case find (\<lambda>t. ptId t = i) (pageTimers s) of
        None \<Rightarrow> s
      | Some t \<Rightarrow>
          s\<lparr>pageTimers := remove1 t (pageTimers s),
            pageListeners :=
              remove1 \<lparr> plSocket = ptSocket t, plId = ptId t, plPromise = ptPromise t \<rparr> (pageListeners s),
            settled := settled s @
              [(ptPromise t, Rejected (''Page CDP command timeout: '' @ ptMethod t))]\<rparr>)"

text \<open>
  The title and favicon queries sent 500 ms after an accepted navigation and on
  \<open>screencast:page-loaded\<close>, when the page's socket is open.
\<close>

definition delayedQuery :: "nat option \<Rightarrow> bridge \<Rightarrow> bridge" where
  "delayedQuery openWs s = (case openWs of None \<Rightarrow> s | Some ws \<Rightarrow> queryTitleAndFavicon ws s)"

subsection \<open>Event streams of the bridge\<close>

datatype bridge_event =
    Send "nat option" string "CDPParams option"
  | ControlMessage wire
  | SendTimeout int
  | ControlOpen nat
  | KeepAlive "nat option"
  | PageOpen nat
  | PageMessage nat wire bool
  | ExecuteCommand nat string "CDPParams option"
  | PageTimeout int
  | DelayedQuery "nat option"

fun bridgeStep :: "bridge \<Rightarrow> bridge_event \<Rightarrow> bridge" where
  "bridgeStep s (Send wsRef method params) = send wsRef method params s"
| "bridgeStep s (ControlMessage w) = controlOnMessage w s"
| "bridgeStep s (SendTimeout i) = sendTimeoutFires i s"
| "bridgeStep s (ControlOpen ws) = controlOnOpen ws s"
| "bridgeStep s (KeepAlive openWs) = keepAlive openWs s"
| "bridgeStep s (PageOpen ws) = pageOnOpen ws s"
| "bridgeStep s (PageMessage ws w isOpen) = runPageListeners ws w (pageOnMessage ws w isOpen s)"
| "bridgeStep s (ExecuteCommand pageWs method params) = executeCommand pageWs method params s"
| "bridgeStep s (PageTimeout i) = pageTimeoutFires i s"
| "bridgeStep s (DelayedQuery openWs) = delayedQuery openWs s"

definition bridgeRun :: "bridge \<Rightarrow> bridge_event list \<Rightarrow> bridge" where
  "bridgeRun s evs = foldl bridgeStep s evs"

subsection \<open>Predicates used to state the bridge's properties\<close>

text \<open>
  \<open>sharedIds\<close> are the ids of the commands numbered by \<open>messageIdRef\<close>, in the order
  they were sent; \<open>localIds s ws\<close> are the ids of the set-up commands of the socket
  \<open>ws\<close>, and \<open>idsOn s ws\<close> all ids sent on it. \<open>reachInv\<close> says that every id and
  every promise the state refers to was drawn before. \<open>concerns n e\<close> holds of the events
  that can settle the command \<open>n\<close>: a message carrying the id \<open>n\<close> and the timers of
  that command. \<open>awaiting n p method s\<close> describes a command of \<open>send\<close> that waits for
  its response, \<open>awaitingPage ws n p method s\<close> one of \<open>executeCommand\<close> on the socket \<open>ws\<close>, \<open>forgotten n p s\<close> a state that no longer refers to the command or its
  promise, and \<open>settlementsOf p s\<close> lists the calls that settled the promise \<open>p\<close>.
  \<open>exampleTraffic\<close>, \<open>sixCommands\<close>, \<open>navigateSent\<close>, \<open>pageNavigateSent\<close>, \<open>navigateResponse\<close>, \<open>otherTraffic\<close>
  and \<open>afterTimeout\<close> are concrete inputs.
\<close>

definition sharedIds :: "bridge \<Rightarrow> int list" where
  "sharedIds s = map outId (filter outShared (sent s))"


definition idsOn :: "bridge \<Rightarrow> nat \<Rightarrow> int list" where
  "idsOn s ws = map outId (filter (\<lambda>m. outSocket m = ws) (sent s))"




definition reachInv :: "bridge \<Rightarrow> bool" where
  "reachInv s \<longleftrightarrow>
     (\<forall>i p. pendingRequestsRef s i = Some p \<longrightarrow> i < messageIdRef s \<and> p < promises s) \<and>
     (\<forall>t \<in> set (sendTimers s). stId t < messageIdRef s \<and> stPromise t < promises s) \<and>
     (\<forall>l \<in> set (pageListeners s). plId l < messageIdRef s \<and> plPromise l < promises s) \<and>
     (\<forall>t \<in> set (pageTimers s). ptId t < messageIdRef s \<and> ptPromise t < promises s) \<and>
     (\<forall>x \<in> set (settled s). fst x < promises s)"

fun concerns :: "int \<Rightarrow> bridge_event \<Rightarrow> bool" where
  "concerns n (ControlMessage (Parsed m)) = (msgId m = Some n)"
| "concerns n (PageMessage ws (Parsed m) isOpen) = (msgId m = Some n)"
| "concerns n (SendTimeout i) = (i = n)"
| "concerns n (PageTimeout i) = (i = n)"
| "concerns n _ = False"

definition awaiting :: "int \<Rightarrow> nat \<Rightarrow> string \<Rightarrow> bridge \<Rightarrow> bool" where
  "awaiting n p method s \<longleftrightarrow>
     pendingRequestsRef s n = Some p \<and> n < messageIdRef s \<and> p < promises s \<and>
     (\<forall>i. pendingRequestsRef s i = Some p \<longrightarrow> i = n) \<and>
     filter (\<lambda>t. stId t = n \<or> stPromise t = p) (sendTimers s)
       = [\<lparr> stId = n, stMethod = method, stPromise = p, stDelay = 30000 \<rparr>] \<and>
     (\<forall>l \<in> set (pageListeners s). plId l \<noteq> n \<and> plPromise l \<noteq> p) \<and>
     (\<forall>t \<in> set (pageTimers s). ptId t \<noteq> n \<and> ptPromise t \<noteq> p) \<and>
     p \<notin> fst ` set (settled s)"

definition forgotten :: "int \<Rightarrow> nat \<Rightarrow> bridge \<Rightarrow> bool" where
  "forgotten n p s \<longleftrightarrow>
     n < messageIdRef s \<and> p < promises s \<and>
     pendingRequestsRef s n = None \<and> (\<forall>i. pendingRequestsRef s i \<noteq> Some p) \<and>
     (\<forall>t \<in> set (sendTimers s). stId t \<noteq> n \<and> stPromise t \<noteq> p) \<and>
     (\<forall>l \<in> set (pageListeners s). plId l \<noteq> n \<and> plPromise l \<noteq> p) \<and>
     (\<forall>t \<in> set (pageTimers s). ptId t \<noteq> n \<and> ptPromise t \<noteq> p)"

definition settlementsOf :: "nat \<Rightarrow> bridge \<Rightarrow> (nat \<times> outcome) list" where
  "settlementsOf p s = filter (\<lambda>x. fst x = p) (settled s)"

definition sixCommands :: "bridge_event list" where
  "sixCommands =
     [ControlOpen 0, KeepAlive (Some 0), KeepAlive (Some 0), KeepAlive (Some 0),
      KeepAlive (Some 0), KeepAlive (Some 0)]"

definition navigateResponse :: CDPMessage where
  "navigateResponse =
     \<lparr> msgId = Some 7, msgMethod = None, msgParams = None,
       msgResult = Some [(''frameId'', ''f1'')], msgError = None \<rparr>"

definition otherTraffic :: "bridge_event list" where
  "otherTraffic =
     [Send (Some 0) ''Target.getTargets'' None,
      ControlMessage (Parsed \<lparr> msgId = Some 8, msgMethod = None, msgParams = None,
                                 msgResult = None, msgError = None \<rparr>),
      ControlMessage (Parsed \<lparr> msgId = None, msgMethod = Some ''Target.targetCreated'',
                                 msgParams = None, msgResult = None, msgError = None \<rparr>),
      ControlMessage Malformed,
      KeepAlive (Some 0)]"

definition navigateSent :: bridge where
  "navigateSent =
     send (Some 0) ''Page.navigate'' (Some [(''url'', ''https://x'')])
       (bridgeRun initialBridge sixCommands)"

definition afterTimeout :: "bridge_event list" where
  "afterTimeout =
     [ControlMessage (Parsed navigateResponse), Send (Some 0) ''Target.getTargets'' None,
      SendTimeout 7]"

definition awaitingPage :: "nat \<Rightarrow> int \<Rightarrow> nat \<Rightarrow> string \<Rightarrow> bridge \<Rightarrow> bool" where
  "awaitingPage ws n p method s \<longleftrightarrow>
     n < messageIdRef s \<and> p < promises s \<and>
     pendingRequestsRef s n = None \<and> (\<forall>i. pendingRequestsRef s i \<noteq> Some p) \<and>
     (\<forall>t \<in> set (sendTimers s). stId t \<noteq> n \<and> stPromise t \<noteq> p) \<and>
     filter (\<lambda>l. plId l = n \<or> plPromise l = p) (pageListeners s)
       = [\<lparr> plSocket = ws, plId = n, plPromise = p \<rparr>] \<and>
     filter (\<lambda>t. ptId t = n \<or> ptPromise t = p) (pageTimers s)
       = [\<lparr> ptSocket = ws, ptId = n, ptMethod = method, ptPromise = p, ptDelay = 30000 \<rparr>] \<and>
     p \<notin> fst ` set (settled s)"

definition pageNavigateSent :: bridge where
  "pageNavigateSent =
     executeCommand 1 ''Page.navigate'' (Some [(''url'', ''https://x'')])
       (bridgeRun initialBridge sixCommands)"

subsection \<open>Lemmas about the bridge\<close>

lemma sharedIds_wsSend_shared:
  "sharedIds (wsSend ws i method params True s) = sharedIds s @ [i]"
  by (simp add: sharedIds_def wsSend_def)

lemma sharedIds_wsSend_local:
  "sharedIds (wsSend ws i method params False s) = sharedIds s"
  by (simp add: sharedIds_def wsSend_def)







lemma bridgeRun_snoc: "bridgeRun s (evs @ [e]) = bridgeStep (bridgeRun s evs) e"
  by (simp add: bridgeRun_def)






lemma pageMsgId_queryTitleAndFavicon [simp]:
  "pageMsgId (queryTitleAndFavicon ws s) = pageMsgId s"
  by (simp add: queryTitleAndFavicon_def nextMessageId_def wsSend_def Let_def)

lemma unshared_deliverPending [simp]:
  "sent (deliverPending m s) = sent s" "pageMsgId (deliverPending m s) = pageMsgId s"
  by (simp_all add: deliverPending_def Let_def split: option.splits)




lemmas bridge_eval =
  bridgeRun_def initialBridge_def send_def controlOnMessage_def deliverPending_def outcomeOf_def
  sendTimeoutFires_def controlOnOpen_def keepAlive_def pageOnOpen_def queryTitleAndFavicon_def
  pageOnMessage_def runPageListeners_def executeCommand_def pageTimeoutFires_def delayedQuery_def
  nextMessageId_def wsSend_def Let_def

lemma keepAlive_replicate:
  "bridgeRun s (replicate n (KeepAlive (Some ws))) =
     s\<lparr>messageIdRef := messageIdRef s + int n,
       sent := sent s @ map (\<lambda>k. \<lparr> outSocket = ws, outId = messageIdRef s + int k,
                  outMethod = ''Runtime.evaluate'',
                  outParams = Some [(''expression'', ''1''), (''returnByValue'', ''true'')],
                  outShared = True \<rparr>) [0 ..< n]\<rparr>"
proof (induction n)
  case 0
  show ?case by (simp add: bridgeRun_def)
next
  case (Suc n)
  have "replicate (Suc n) (KeepAlive (Some ws)) = replicate n (KeepAlive (Some ws)) @ [KeepAlive (Some ws)]"
    by (simp add: replicate_append_same)
  then show ?case
    using Suc by (simp add: bridgeRun_snoc keepAlive_def nextMessageId_def wsSend_def)
qed





lemma find_SomeD: "find P xs = Some x \<Longrightarrow> P x \<and> x \<in> set xs"
  by (induction xs) (auto split: if_splits)

lemma filter_remove1_other: "\<not> F t \<Longrightarrow> filter F (remove1 t xs) = filter F xs"
  by (induction xs) auto

lemma set_remove1_D: "x \<in> set (remove1 t xs) \<Longrightarrow> x \<in> set xs"
  by (meson notin_set_remove1)

subsection \<open>Every reachable state keeps ids and promises below the counters\<close>

lemma reachInv_deliverPending: "reachInv s \<Longrightarrow> reachInv (deliverPending m s)"
  unfolding reachInv_def deliverPending_def Let_def
  by (auto split: option.splits)

lemma reachInv_queryTitleAndFavicon: "reachInv s \<Longrightarrow> reachInv (queryTitleAndFavicon ws s)"
  unfolding reachInv_def queryTitleAndFavicon_def nextMessageId_def wsSend_def Let_def
  by (simp, fastforce)

lemma reachInv_step: "reachInv s \<Longrightarrow> reachInv (bridgeStep s e)"
proof (cases e)
  case (Send wsRef meth pars)
  assume "reachInv s" then show ?thesis
    unfolding Send bridgeStep.simps reachInv_def send_def nextMessageId_def wsSend_def Let_def
    by (cases wsRef) (simp_all, fastforce+)
next
  case (ControlMessage w)
  assume "reachInv s" then show ?thesis
    by (simp add: ControlMessage controlOnMessage_def reachInv_deliverPending split: wire.splits)
next
  case (SendTimeout i)
  assume a: "reachInv s"
  show ?thesis
  proof (cases "find (\<lambda>t. stId t = i) (sendTimers s)")
    case None
    then show ?thesis using a by (simp add: SendTimeout sendTimeoutFires_def)
  next
    case (Some t)
    have "t \<in> set (sendTimers s)" using find_SomeD [OF Some] by simp
    then show ?thesis
      using a unfolding SendTimeout bridgeStep.simps reachInv_def sendTimeoutFires_def Some Let_def
      by (auto dest: set_remove1_D)
  qed
next
  case (ControlOpen ws)
  assume "reachInv s" then show ?thesis
    unfolding ControlOpen bridgeStep.simps reachInv_def controlOnOpen_def nextMessageId_def wsSend_def
    by (simp, fastforce)
next
  case (KeepAlive openWs)
  assume "reachInv s" then show ?thesis
    unfolding KeepAlive bridgeStep.simps reachInv_def keepAlive_def nextMessageId_def wsSend_def
    by (cases openWs) (simp_all, fastforce)
next
  case (PageOpen ws)
  assume "reachInv s" then show ?thesis
    by (simp add: PageOpen reachInv_def pageOnOpen_def wsSend_def Let_def)
next
  case (PageMessage ws w isOpen)
  assume a: "reachInv s"
  have b: "reachInv (pageOnMessage ws w isOpen s)"
    using a by (simp add: pageOnMessage_def Let_def reachInv_deliverPending
        reachInv_queryTitleAndFavicon split: wire.splits)
  have "reachInv (runPageListeners ws w s')" if "reachInv s'" for s'
    using that unfolding reachInv_def runPageListeners_def Let_def
    by (auto split: wire.splits option.splits)
  then show ?thesis using b by (simp add: PageMessage)
next
  case (ExecuteCommand pageWs meth pars)
  assume "reachInv s" then show ?thesis
    unfolding ExecuteCommand bridgeStep.simps reachInv_def executeCommand_def nextMessageId_def
      wsSend_def Let_def
    by (simp, fastforce)
next
  case (PageTimeout i)
  assume a: "reachInv s"
  show ?thesis
  proof (cases "find (\<lambda>t. ptId t = i) (pageTimers s)")
    case None
    then show ?thesis using a by (simp add: PageTimeout pageTimeoutFires_def)
  next
    case (Some t)
    have "t \<in> set (pageTimers s)" using find_SomeD [OF Some] by simp
    then show ?thesis
      using a unfolding PageTimeout bridgeStep.simps reachInv_def pageTimeoutFires_def Some
      by (auto dest: set_remove1_D)
  qed
next
  case (DelayedQuery openWs)
  assume "reachInv s" then show ?thesis
    by (simp add: DelayedQuery delayedQuery_def reachInv_queryTitleAndFavicon split: option.splits)
qed

lemma reachInv_run: "reachInv s \<Longrightarrow> reachInv (bridgeRun s evs)"
  by (induction evs rule: rev_induct) (simp_all add: bridgeRun_snoc reachInv_step, simp add: bridgeRun_def)

lemma reachInv_initial: "reachInv initialBridge"
  by (simp add: reachInv_def initialBridge_def)

subsection \<open>A command that waits for its response\<close>

lemma awaiting_deliverPending:
  assumes "awaiting n p method s" "msgId m \<noteq> Some n"
  shows "awaiting n p method (deliverPending m s)"
  using assms unfolding awaiting_def deliverPending_def Let_def
  by (auto split: option.splits)

lemma awaiting_queryTitleAndFavicon:
  "awaiting n p method s \<Longrightarrow> awaiting n p method (queryTitleAndFavicon ws s)"
  unfolding awaiting_def queryTitleAndFavicon_def nextMessageId_def wsSend_def Let_def
  by simp

lemma awaiting_frame:
  assumes "awaiting n p method s"
      and "pendingRequestsRef s' = pendingRequestsRef s"
      and "messageIdRef s \<le> messageIdRef s'" and "promises s \<le> promises s'"
      and "sendTimers s' = sendTimers s"
      and "set (pageListeners s') \<subseteq> set (pageListeners s)"
      and "set (pageTimers s') \<subseteq> set (pageTimers s)"
      and "p \<notin> fst ` set (settled s')"
  shows "awaiting n p method s'"
  using assms unfolding awaiting_def by (simp, blast)

lemma awaiting_runPageListeners:
  assumes "awaiting n p method s"
  shows "awaiting n p method (runPageListeners ws w s)"
proof (cases w)
  case Malformed
  then show ?thesis using assms by (simp add: runPageListeners_def)
next
  case (Parsed m)
  show ?thesis
  proof (cases "msgId m")
    case None
    then show ?thesis using assms by (simp add: runPageListeners_def Parsed)
  next
    case (Some i)
    let ?hit = "filter (\<lambda>l. plSocket l = ws \<and> plId l = i) (pageListeners s)"
    have r: "runPageListeners ws w s =
        s\<lparr>pageListeners := filter (\<lambda>l. \<not> (plSocket l = ws \<and> plId l = i)) (pageListeners s),
          settled := settled s @ map (\<lambda>l. (plPromise l, outcomeOf m)) ?hit\<rparr>"
      by (simp add: runPageListeners_def Parsed Some Let_def)
    have "\<forall>l \<in> set ?hit. plPromise l \<noteq> p"
      using assms by (simp add: awaiting_def)
    then have "p \<notin> fst ` set (map (\<lambda>l. (plPromise l, outcomeOf m)) ?hit)"
      by (auto simp: image_iff)
    moreover have "p \<notin> fst ` set (settled s)" using assms by (simp add: awaiting_def)
    ultimately have "p \<notin> fst ` set (settled (runPageListeners ws w s))"
      unfolding r by (simp add: image_Un)
    then show ?thesis
      using assms by (rule awaiting_frame [rotated -1]) (simp_all add: r)
  qed
qed

lemma awaiting_send_other:
  assumes "awaiting n p method s"
  shows "awaiting n p method (send wsRef method' params s)"
proof (cases wsRef)
  case None
  then show ?thesis using assms by (auto simp: awaiting_def send_def Let_def)
next
  case (Some ws)
  have "messageIdRef s \<noteq> n" "promises s \<noteq> p" using assms by (auto simp: awaiting_def)
  then show ?thesis
    using assms unfolding awaiting_def send_def Some nextMessageId_def wsSend_def Let_def
    by auto
qed

lemma awaiting_sendTimeout_other:
  assumes "awaiting n p method s" "i \<noteq> n"
  shows "awaiting n p method (sendTimeoutFires i s)"
proof (cases "find (\<lambda>t. stId t = i) (sendTimers s)")
  case None
  then show ?thesis using assms by (simp add: sendTimeoutFires_def)
next
  case (Some t)
  have t: "stId t = i" "t \<in> set (sendTimers s)" using find_SomeD [OF Some] by simp_all
  let ?F = "\<lambda>t. stId t = n \<or> stPromise t = p"
  have f: "filter ?F (sendTimers s) = [\<lparr> stId = n, stMethod = method, stPromise = p, stDelay = 30000 \<rparr>]"
    using assms(1) by (simp add: awaiting_def)
  have nF: "\<not> ?F t"
  proof
    assume "?F t"
    then have "t \<in> set (filter ?F (sendTimers s))" using t(2) by simp
    then have "t = \<lparr> stId = n, stMethod = method, stPromise = p, stDelay = 30000 \<rparr>"
      unfolding f by simp
    then show False using t(1) assms(2) by simp
  qed
  then have np: "stPromise t \<noteq> p" by simp
  have r: "filter ?F (remove1 t (sendTimers s)) = filter ?F (sendTimers s)"
    using nF by (rule filter_remove1_other)
  show ?thesis
    using assms np r t(1) unfolding awaiting_def sendTimeoutFires_def Some Let_def
    by auto
qed

lemma awaiting_pageTimeout:
  assumes "awaiting n p method s"
  shows "awaiting n p method (pageTimeoutFires i s)"
proof (cases "find (\<lambda>t. ptId t = i) (pageTimers s)")
  case None
  then show ?thesis using assms by (simp add: pageTimeoutFires_def)
next
  case (Some t)
  have t: "t \<in> set (pageTimers s)" using find_SomeD [OF Some] by simp
  then have np: "ptPromise t \<noteq> p" using assms by (simp add: awaiting_def)
  have r: "pageTimeoutFires i s =
      s\<lparr>pageTimers := remove1 t (pageTimers s),
        pageListeners :=
          remove1 \<lparr> plSocket = ptSocket t, plId = ptId t, plPromise = ptPromise t \<rparr> (pageListeners s),
        settled := settled s @ [(ptPromise t, Rejected (''Page CDP command timeout: '' @ ptMethod t))]\<rparr>"
    by (simp add: pageTimeoutFires_def Some)
  have "p \<notin> fst ` set (settled s)" using assms by (simp add: awaiting_def)
  then have "p \<notin> fst ` set (settled (pageTimeoutFires i s))"
    unfolding r using np by simp
  then show ?thesis
    using assms by (rule awaiting_frame [rotated -1]) (simp_all add: r set_remove1_subset)
qed

lemma awaiting_executeCommand:
  assumes "awaiting n p method s"
  shows "awaiting n p method (executeCommand ws method' params s)"
proof -
  have "messageIdRef s \<noteq> n" "promises s \<noteq> p" using assms by (auto simp: awaiting_def)
  then show ?thesis
    using assms unfolding awaiting_def executeCommand_def nextMessageId_def wsSend_def Let_def
    by auto
qed

lemma awaiting_step:
  assumes "awaiting n p method s" "\<not> concerns n e"
  shows "awaiting n p method (bridgeStep s e)"
proof (cases e)
  case (Send wsRef meth' pars)
  then show ?thesis using assms by (simp add: awaiting_send_other)
next
  case (ControlMessage w)
  then show ?thesis
    using assms by (cases w) (simp_all add: controlOnMessage_def awaiting_deliverPending)
next
  case (SendTimeout i)
  then show ?thesis using assms by (simp add: awaiting_sendTimeout_other)
next
  case (ControlOpen ws)
  then show ?thesis
    using assms by (simp add: awaiting_def controlOnOpen_def nextMessageId_def wsSend_def)
next
  case (KeepAlive openWs)
  then show ?thesis
    using assms
    by (cases openWs) (simp_all add: awaiting_def keepAlive_def nextMessageId_def wsSend_def)
next
  case (PageOpen ws)
  then show ?thesis using assms by (simp add: awaiting_def pageOnOpen_def wsSend_def Let_def)
next
  case (PageMessage ws w isOpen)
  have "awaiting n p method (pageOnMessage ws w isOpen s)"
    using assms unfolding PageMessage
    by (cases w)
       (simp_all add: pageOnMessage_def Let_def awaiting_deliverPending awaiting_queryTitleAndFavicon)
  then show ?thesis by (simp add: PageMessage awaiting_runPageListeners)
next
  case (ExecuteCommand pageWs meth' pars)
  then show ?thesis using assms by (simp add: awaiting_executeCommand)
next
  case (PageTimeout i)
  then show ?thesis using assms by (simp add: awaiting_pageTimeout)
next
  case (DelayedQuery openWs)
  then show ?thesis
    using assms by (cases openWs) (simp_all add: delayedQuery_def awaiting_queryTitleAndFavicon)
qed

lemma awaiting_run:
  "awaiting n p method s \<Longrightarrow> \<forall>e \<in> set evs. \<not> concerns n e \<Longrightarrow>
   awaiting n p method (bridgeRun s evs)"
  by (induction evs rule: rev_induct) (simp_all add: bridgeRun_snoc awaiting_step, simp add: bridgeRun_def)

lemma awaiting_after_send:
  assumes "reachInv s"
  shows "awaiting (messageIdRef s) (promises s) method (send (Some ws) method params s)"
proof -
  have "filter (\<lambda>t. stId t = messageIdRef s \<or> stPromise t = promises s) (sendTimers s) = []"
    using assms by (auto simp: reachInv_def filter_empty_conv)
  moreover have "promises s \<notin> fst ` set (settled s)"
    using assms by (auto simp: reachInv_def)
  ultimately show ?thesis
    using assms unfolding awaiting_def reachInv_def send_def nextMessageId_def wsSend_def Let_def
    by (simp, fastforce)
qed

subsection \<open>A command the bridge has forgotten\<close>

lemma forgotten_frame:
  assumes "forgotten n p s"
      and "messageIdRef s \<le> messageIdRef s'" and "promises s \<le> promises s'"
      and "\<forall>i q. pendingRequestsRef s' i = Some q \<longrightarrow> pendingRequestsRef s i = Some q"
      and "set (sendTimers s') \<subseteq> set (sendTimers s)"
      and "set (pageListeners s') \<subseteq> set (pageListeners s)"
      and "set (pageTimers s') \<subseteq> set (pageTimers s)"
  shows "forgotten n p s'"
proof -
  have "pendingRequestsRef s' n = None"
  proof (cases "pendingRequestsRef s' n")
    case (Some q)
    then have "pendingRequestsRef s n = Some q" using assms(4) by blast
    then show ?thesis using assms(1) by (simp add: forgotten_def)
  qed simp
  moreover have "\<forall>i. pendingRequestsRef s' i \<noteq> Some p"
    using assms(1,4) unfolding forgotten_def by blast
  ultimately show ?thesis
    using assms(1,2,3,5,6,7) unfolding forgotten_def by (simp, blast)
qed

lemma settlementsOf_append:
  "settled s' = settled s @ new \<Longrightarrow> p \<notin> fst ` set new \<Longrightarrow> settlementsOf p s' = settlementsOf p s"
  by (auto simp: settlementsOf_def filter_empty_conv)

lemma forgotten_deliverPending:
  assumes "forgotten n p s"
  shows "forgotten n p (deliverPending m s) \<and> settlementsOf p (deliverPending m s) = settlementsOf p s"
proof (cases "msgId m")
  case None
  then show ?thesis using assms by (simp add: deliverPending_def)
next
  case (Some i)
  show ?thesis
  proof (cases "pendingRequestsRef s i")
    case None
    then show ?thesis using assms by (simp add: deliverPending_def Some)
  next
    case q: (Some q)
    have r: "deliverPending m s =
        s\<lparr>pendingRequestsRef := (pendingRequestsRef s)(i := None),
          settled := settled s @ [(q, outcomeOf m)]\<rparr>"
      by (simp add: deliverPending_def Some q Let_def)
    have "q \<noteq> p" using assms q by (auto simp: forgotten_def)
    then have "settlementsOf p (deliverPending m s) = settlementsOf p s"
      by (intro settlementsOf_append [where new = "[(q, outcomeOf m)]"]) (simp_all add: r)
    moreover have "forgotten n p (deliverPending m s)"
      using assms by (rule forgotten_frame) (simp_all add: r)
    ultimately show ?thesis by simp
  qed
qed

lemma forgotten_queryTitleAndFavicon:
  assumes "forgotten n p s"
  shows "forgotten n p (queryTitleAndFavicon ws s) \<and>
         settlementsOf p (queryTitleAndFavicon ws s) = settlementsOf p s"
proof -
  have "forgotten n p (queryTitleAndFavicon ws s)"
    using assms
    by (rule forgotten_frame)
       (simp_all add: queryTitleAndFavicon_def nextMessageId_def wsSend_def Let_def)
  moreover have "settled (queryTitleAndFavicon ws s) = settled s"
    by (simp add: queryTitleAndFavicon_def nextMessageId_def wsSend_def Let_def)
  ultimately show ?thesis by (simp add: settlementsOf_def)
qed

lemma forgotten_runPageListeners:
  assumes "forgotten n p s"
  shows "forgotten n p (runPageListeners ws w s) \<and>
         settlementsOf p (runPageListeners ws w s) = settlementsOf p s"
proof (cases w)
  case Malformed
  then show ?thesis using assms by (simp add: runPageListeners_def)
next
  case (Parsed m)
  show ?thesis
  proof (cases "msgId m")
    case None
    then show ?thesis using assms by (simp add: runPageListeners_def Parsed)
  next
    case (Some i)
    let ?hit = "filter (\<lambda>l. plSocket l = ws \<and> plId l = i) (pageListeners s)"
    have r: "runPageListeners ws w s =
        s\<lparr>pageListeners := filter (\<lambda>l. \<not> (plSocket l = ws \<and> plId l = i)) (pageListeners s),
          settled := settled s @ map (\<lambda>l. (plPromise l, outcomeOf m)) ?hit\<rparr>"
      by (simp add: runPageListeners_def Parsed Some Let_def)
    have "\<forall>l \<in> set ?hit. plPromise l \<noteq> p"
      using assms by (simp add: forgotten_def)
    then have "p \<notin> fst ` set (map (\<lambda>l. (plPromise l, outcomeOf m)) ?hit)"
      by (auto simp: image_iff)
    then have "settlementsOf p (runPageListeners ws w s) = settlementsOf p s"
      by (intro settlementsOf_append [where new = "map (\<lambda>l. (plPromise l, outcomeOf m)) ?hit"])
         (simp_all add: r)
    moreover have "forgotten n p (runPageListeners ws w s)"
      using assms by (rule forgotten_frame) (simp_all add: r)
    ultimately show ?thesis by simp
  qed
qed

lemma forgotten_send:
  assumes "forgotten n p s"
  shows "forgotten n p (send wsRef method params s) \<and>
         settlementsOf p (send wsRef method params s) = settlementsOf p s"
proof -
  have ne: "messageIdRef s \<noteq> n" "promises s \<noteq> p" using assms by (auto simp: forgotten_def)
  show ?thesis
  proof (cases wsRef)
    case None
    have r: "send wsRef method params s =
        s\<lparr>promises := Suc (promises s),
          settled := settled s @ [(promises s, Rejected ''WebSocket not connected'')]\<rparr>"
      by (simp add: send_def None Let_def)
    have "forgotten n p (send wsRef method params s)"
      using assms by (rule forgotten_frame) (simp_all add: r)
    moreover have "settlementsOf p (send wsRef method params s) = settlementsOf p s"
      using ne by (simp add: r settlementsOf_def)
    ultimately show ?thesis by simp
  next
    case (Some ws)
    have r: "send wsRef method params s =
        s\<lparr>promises := Suc (promises s), messageIdRef := messageIdRef s + 1,
          pendingRequestsRef := (pendingRequestsRef s)(messageIdRef s \<mapsto> promises s),
          sendTimers := sendTimers s @
            [\<lparr> stId = messageIdRef s, stMethod = method, stPromise = promises s, stDelay = 30000 \<rparr>],
          sent := sent s @ [\<lparr> outSocket = ws, outId = messageIdRef s, outMethod = method,
                             outParams = params, outShared = True \<rparr>]\<rparr>"
      by (simp add: send_def Some Let_def nextMessageId_def wsSend_def)
    have "forgotten n p (send wsRef method params s)"
      using assms ne unfolding r forgotten_def by simp
    moreover have "settlementsOf p (send wsRef method params s) = settlementsOf p s"
      by (simp add: r settlementsOf_def)
    ultimately show ?thesis by simp
  qed
qed

lemma forgotten_executeCommand:
  assumes "forgotten n p s"
  shows "forgotten n p (executeCommand ws method params s) \<and>
         settlementsOf p (executeCommand ws method params s) = settlementsOf p s"
proof -
  have ne: "messageIdRef s \<noteq> n" "promises s \<noteq> p" using assms by (auto simp: forgotten_def)
  have r: "executeCommand ws method params s =
      s\<lparr>promises := Suc (promises s), messageIdRef := messageIdRef s + 1,
        pageListeners := pageListeners s @
          [\<lparr> plSocket = ws, plId = messageIdRef s, plPromise = promises s \<rparr>],
        sent := sent s @ [\<lparr> outSocket = ws, outId = messageIdRef s, outMethod = method,
                           outParams = params, outShared = True \<rparr>],
        pageTimers := pageTimers s @
          [\<lparr> ptSocket = ws, ptId = messageIdRef s, ptMethod = method, ptPromise = promises s,
             ptDelay = 30000 \<rparr>]\<rparr>"
    by (simp add: executeCommand_def Let_def nextMessageId_def wsSend_def)
  have "forgotten n p (executeCommand ws method params s)"
    using assms ne unfolding r forgotten_def by simp
  moreover have "settlementsOf p (executeCommand ws method params s) = settlementsOf p s"
    by (simp add: r settlementsOf_def)
  ultimately show ?thesis by simp
qed

lemma forgotten_sendTimeout:
  assumes "forgotten n p s"
  shows "forgotten n p (sendTimeoutFires i s) \<and>
         settlementsOf p (sendTimeoutFires i s) = settlementsOf p s"
proof (cases "find (\<lambda>t. stId t = i) (sendTimers s)")
  case None
  then show ?thesis using assms by (simp add: sendTimeoutFires_def)
next
  case (Some t)
  have "t \<in> set (sendTimers s)" using find_SomeD [OF Some] by simp
  then have np: "stPromise t \<noteq> p" using assms by (simp add: forgotten_def)
  show ?thesis
  proof (cases "pendingRequestsRef s (stId t)")
    case None
    have r: "sendTimeoutFires i s = s\<lparr>sendTimers := remove1 t (sendTimers s)\<rparr>"
      by (simp add: sendTimeoutFires_def Some None Let_def)
    have "forgotten n p (sendTimeoutFires i s)"
      using assms by (rule forgotten_frame) (simp_all add: r set_remove1_subset)
    then show ?thesis by (simp add: r settlementsOf_def)
  next
    case q: (Some q)
    have r: "sendTimeoutFires i s =
        s\<lparr>sendTimers := remove1 t (sendTimers s),
          pendingRequestsRef := (pendingRequestsRef s)(stId t := None),
          settled := settled s @ [(stPromise t, Rejected (''CDP command timeout: '' @ stMethod t))]\<rparr>"
      by (simp add: sendTimeoutFires_def Some q Let_def)
    have "forgotten n p (sendTimeoutFires i s)"
      using assms by (rule forgotten_frame) (simp_all add: r set_remove1_subset)
    moreover have "settlementsOf p (sendTimeoutFires i s) = settlementsOf p s"
      using np by (simp add: r settlementsOf_def)
    ultimately show ?thesis by simp
  qed
qed

lemma forgotten_pageTimeout:
  assumes "forgotten n p s"
  shows "forgotten n p (pageTimeoutFires i s) \<and>
         settlementsOf p (pageTimeoutFires i s) = settlementsOf p s"
proof (cases "find (\<lambda>t. ptId t = i) (pageTimers s)")
  case None
  then show ?thesis using assms by (simp add: pageTimeoutFires_def)
next
  case (Some t)
  have "t \<in> set (pageTimers s)" using find_SomeD [OF Some] by simp
  then have np: "ptPromise t \<noteq> p" using assms by (simp add: forgotten_def)
  have r: "pageTimeoutFires i s =
      s\<lparr>pageTimers := remove1 t (pageTimers s),
        pageListeners :=
          remove1 \<lparr> plSocket = ptSocket t, plId = ptId t, plPromise = ptPromise t \<rparr> (pageListeners s),
        settled := settled s @ [(ptPromise t, Rejected (''Page CDP command timeout: '' @ ptMethod t))]\<rparr>"
    by (simp add: pageTimeoutFires_def Some)
  have "forgotten n p (pageTimeoutFires i s)"
    using assms by (rule forgotten_frame) (simp_all add: r set_remove1_subset)
  moreover have "settlementsOf p (pageTimeoutFires i s) = settlementsOf p s"
    using np by (simp add: r settlementsOf_def)
  ultimately show ?thesis by simp
qed

lemma forgotten_counter:
  assumes "forgotten n p s"
  shows "forgotten n p (wsSend ws i method params shared (s\<lparr>messageIdRef := messageIdRef s + 1\<rparr>)) \<and>
         settlementsOf p (wsSend ws i method params shared (s\<lparr>messageIdRef := messageIdRef s + 1\<rparr>))
           = settlementsOf p s"
proof -
  have "forgotten n p (wsSend ws i method params shared (s\<lparr>messageIdRef := messageIdRef s + 1\<rparr>))"
    using assms by (rule forgotten_frame) (simp_all add: wsSend_def)
  then show ?thesis by (simp add: settlementsOf_def wsSend_def)
qed

lemma forgotten_step:
  assumes "forgotten n p s"
  shows "forgotten n p (bridgeStep s e) \<and> settlementsOf p (bridgeStep s e) = settlementsOf p s"
proof (cases e)
  case (Send wsRef meth pars)
  then show ?thesis using forgotten_send [OF assms] by simp
next
  case (ControlMessage w)
  then show ?thesis
    using assms forgotten_deliverPending [OF assms]
    by (cases w) (simp_all add: controlOnMessage_def)
next
  case (SendTimeout i)
  then show ?thesis using forgotten_sendTimeout [OF assms] by simp
next
  case (ControlOpen ws)
  then show ?thesis
    using forgotten_counter [OF assms] by (simp add: controlOnOpen_def nextMessageId_def)
next
  case (KeepAlive openWs)
  then show ?thesis
    using assms forgotten_counter [OF assms]
    by (cases openWs) (simp_all add: keepAlive_def nextMessageId_def)
next
  case (PageOpen ws)
  have "forgotten n p (pageOnOpen ws s)"
    using assms by (rule forgotten_frame) (simp_all add: pageOnOpen_def wsSend_def Let_def)
  then show ?thesis by (simp add: PageOpen settlementsOf_def pageOnOpen_def wsSend_def Let_def)
next
  case (PageMessage ws w isOpen)
  have a: "forgotten n p (pageOnMessage ws w isOpen s) \<and>
      settlementsOf p (pageOnMessage ws w isOpen s) = settlementsOf p s"
  proof (cases w)
    case Malformed
    then show ?thesis using assms by (simp add: pageOnMessage_def)
  next
    case (Parsed m)
    note d = forgotten_deliverPending [OF assms, of m]
    note q = forgotten_queryTitleAndFavicon [OF conjunct1 [OF d], of ws]
    show ?thesis using d q by (simp add: pageOnMessage_def Parsed Let_def)
  qed
  show ?thesis
    using a forgotten_runPageListeners [OF conjunct1 [OF a], of ws w] by (simp add: PageMessage)
next
  case (ExecuteCommand pageWs meth pars)
  then show ?thesis using forgotten_executeCommand [OF assms] by simp
next
  case (PageTimeout i)
  then show ?thesis using forgotten_pageTimeout [OF assms] by simp
next
  case (DelayedQuery openWs)
  then show ?thesis
    using assms forgotten_queryTitleAndFavicon [OF assms]
    by (cases openWs) (simp_all add: delayedQuery_def)
qed

lemma forgotten_run:
  "forgotten n p s \<Longrightarrow>
   forgotten n p (bridgeRun s evs) \<and> settlementsOf p (bridgeRun s evs) = settlementsOf p s"
proof (induction evs rule: rev_induct)
  case Nil
  then show ?case by (simp add: bridgeRun_def)
next
  case (snoc e evs)
  then show ?case
    using forgotten_step [of n p "bridgeRun s evs" e] by (simp add: bridgeRun_snoc)
qed

lemma awaiting_unsettled:
  assumes "awaiting n p method s"
  shows "settlementsOf p s = []"
proof -
  have "p \<notin> fst ` set (settled s)" using assms by (simp add: awaiting_def)
  then have "\<forall>x \<in> set (settled s). fst x \<noteq> p" by (metis imageI)
  then show ?thesis by (simp add: settlementsOf_def filter_empty_conv)
qed

lemma awaiting_timer_found:
  assumes "awaiting n p method s"
  shows "find (\<lambda>t. stId t = n) (sendTimers s)
       = Some \<lparr> stId = n, stMethod = method, stPromise = p, stDelay = 30000 \<rparr>"
proof -
  let ?T = "\<lparr> stId = n, stMethod = method, stPromise = p, stDelay = 30000 \<rparr>"
  let ?F = "\<lambda>t. stId t = n \<or> stPromise t = p"
  have f: "filter ?F (sendTimers s) = [?T]" using assms by (simp add: awaiting_def)
  then have "?T \<in> set (filter ?F (sendTimers s))" by simp
  then have "?T \<in> set (sendTimers s)" by simp
  then obtain t where t: "find (\<lambda>t. stId t = n) (sendTimers s) = Some t"
    by (cases "find (\<lambda>t. stId t = n) (sendTimers s)") (auto simp: find_None_iff)
  have "stId t = n" "t \<in> set (sendTimers s)" using find_SomeD [OF t] by simp_all
  then have "t \<in> set (filter ?F (sendTimers s))" by simp
  then have "t = ?T" unfolding f by simp
  then show ?thesis using t by simp
qed

lemma awaiting_timeout:
  assumes "awaiting n p method s"
  shows "sendTimeoutFires n s =
           s\<lparr>sendTimers := remove1 \<lparr> stId = n, stMethod = method, stPromise = p, stDelay = 30000 \<rparr>
                               (sendTimers s),
             pendingRequestsRef := (pendingRequestsRef s)(n := None),
             settled := settled s @ [(p, Rejected (''CDP command timeout: '' @ method))]\<rparr>"
    and "forgotten n p (sendTimeoutFires n s)"
proof -
  let ?T = "\<lparr> stId = n, stMethod = method, stPromise = p, stDelay = 30000 \<rparr>"
  let ?F = "\<lambda>t. stId t = n \<or> stPromise t = p"
  have pend: "pendingRequestsRef s n = Some p" using assms by (simp add: awaiting_def)
  show r: "sendTimeoutFires n s =
      s\<lparr>sendTimers := remove1 ?T (sendTimers s),
        pendingRequestsRef := (pendingRequestsRef s)(n := None),
        settled := settled s @ [(p, Rejected (''CDP command timeout: '' @ method))]\<rparr>"
    by (simp add: sendTimeoutFires_def awaiting_timer_found [OF assms] pend Let_def)
  have "filter ?F (remove1 ?T (sendTimers s)) = remove1 ?T (filter ?F (sendTimers s))"
    by (rule filter_remove1)
  also have "\<dots> = []" using assms by (simp add: awaiting_def)
  finally have t: "\<forall>t \<in> set (remove1 ?T (sendTimers s)). stId t \<noteq> n \<and> stPromise t \<noteq> p"
    by (simp add: filter_empty_conv)
  have "\<forall>i. ((pendingRequestsRef s)(n := None)) i \<noteq> Some p"
    using assms by (auto simp: awaiting_def)
  then show "forgotten n p (sendTimeoutFires n s)"
    using assms t unfolding r forgotten_def awaiting_def by simp
qed

lemma forgotten_late_response:
  assumes "forgotten n p s" "msgId m = Some n" "msgMethod m = None"
  shows "controlOnMessage (Parsed m) s = s"
    and "runPageListeners ws (Parsed m) (pageOnMessage ws (Parsed m) isOpen s) = s"
proof -
  have d: "deliverPending m s = s"
    using assms by (simp add: deliverPending_def forgotten_def)
  show "controlOnMessage (Parsed m) s = s"
    by (simp add: controlOnMessage_def d)
  have "\<forall>l \<in> set (pageListeners s). \<not> (plSocket l = ws \<and> plId l = n)"
    using assms(1) by (simp add: forgotten_def)
  then have "filter (\<lambda>l. plSocket l = ws \<and> plId l = n) (pageListeners s) = []"
    "filter (\<lambda>l. \<not> (plSocket l = ws \<and> plId l = n)) (pageListeners s) = pageListeners s"
    by (simp_all add: filter_empty_conv filter_id_conv)
  then show "runPageListeners ws (Parsed m) (pageOnMessage ws (Parsed m) isOpen s) = s"
    using assms(2,3) by (simp add: pageOnMessage_def runPageListeners_def d Let_def)
qed

lemma sixCommands_counters:
  "messageIdRef (bridgeRun initialBridge sixCommands) = 7"
  "promises (bridgeRun initialBridge sixCommands) = 0"
  by (simp_all add: sixCommands_def bridge_eval)

lemma otherTraffic_unconcerned: "\<forall>e \<in> set otherTraffic. \<not> concerns 7 e"
  by (simp add: otherTraffic_def)

lemma awaitingPage_frame:
  assumes "awaitingPage ws n p method s"
      and "messageIdRef s \<le> messageIdRef s'" and "promises s \<le> promises s'"
      and "\<forall>i q. pendingRequestsRef s' i = Some q \<longrightarrow> pendingRequestsRef s i = Some q"
      and "set (sendTimers s') \<subseteq> set (sendTimers s)"
      and "filter (\<lambda>l. plId l = n \<or> plPromise l = p) (pageListeners s')
         = filter (\<lambda>l. plId l = n \<or> plPromise l = p) (pageListeners s)"
      and "filter (\<lambda>t. ptId t = n \<or> ptPromise t = p) (pageTimers s')
         = filter (\<lambda>t. ptId t = n \<or> ptPromise t = p) (pageTimers s)"
      and "p \<notin> fst ` set (settled s')"
  shows "awaitingPage ws n p method s'"
proof -
  have "pendingRequestsRef s' n = None"
  proof (cases "pendingRequestsRef s' n")
    case (Some q)
    then have "pendingRequestsRef s n = Some q" using assms(4) by blast
    then show ?thesis using assms(1) by (simp add: awaitingPage_def)
  qed simp
  moreover have "\<forall>i. pendingRequestsRef s' i \<noteq> Some p"
    using assms(1,4) unfolding awaitingPage_def by blast
  moreover have "\<forall>t \<in> set (sendTimers s'). stId t \<noteq> n \<and> stPromise t \<noteq> p"
    using assms(1,5) unfolding awaitingPage_def by blast
  moreover have "n < messageIdRef s'" "p < promises s'"
    using assms(1,2,3) by (simp_all add: awaitingPage_def)
  ultimately show ?thesis
    using assms(1,6,7,8) unfolding awaitingPage_def by simp
qed

lemma awaitingPage_listener:
  assumes "awaitingPage ws n p method s" "l \<in> set (pageListeners s)" "plId l = n \<or> plPromise l = p"
  shows "l = \<lparr> plSocket = ws, plId = n, plPromise = p \<rparr>"
proof -
  have f: "filter (\<lambda>l. plId l = n \<or> plPromise l = p) (pageListeners s)
      = [\<lparr> plSocket = ws, plId = n, plPromise = p \<rparr>]"
    using assms(1) by (simp add: awaitingPage_def)
  have "l \<in> set (filter (\<lambda>l. plId l = n \<or> plPromise l = p) (pageListeners s))"
    using assms(2,3) by simp
  then show ?thesis unfolding f by simp
qed

lemma awaitingPage_timer:
  assumes "awaitingPage ws n p method s" "t \<in> set (pageTimers s)" "ptId t = n \<or> ptPromise t = p"
  shows "t = \<lparr> ptSocket = ws, ptId = n, ptMethod = method, ptPromise = p, ptDelay = 30000 \<rparr>"
proof -
  have f: "filter (\<lambda>t. ptId t = n \<or> ptPromise t = p) (pageTimers s)
      = [\<lparr> ptSocket = ws, ptId = n, ptMethod = method, ptPromise = p, ptDelay = 30000 \<rparr>]"
    using assms(1) by (simp add: awaitingPage_def)
  have "t \<in> set (filter (\<lambda>t. ptId t = n \<or> ptPromise t = p) (pageTimers s))"
    using assms(2,3) by simp
  then show ?thesis unfolding f by simp
qed

lemma awaitingPage_unsettled:
  assumes "awaitingPage ws n p method s"
  shows "settlementsOf p s = []"
proof -
  have "p \<notin> fst ` set (settled s)" using assms by (simp add: awaitingPage_def)
  then have "\<forall>x \<in> set (settled s). fst x \<noteq> p" by (metis imageI)
  then show ?thesis by (simp add: settlementsOf_def filter_empty_conv)
qed

lemma awaitingPage_deliverPending:
  assumes "awaitingPage ws n p method s"
  shows "awaitingPage ws n p method (deliverPending m s)"
proof (cases "msgId m")
  case None
  then show ?thesis using assms by (simp add: deliverPending_def)
next
  case (Some i)
  show ?thesis
  proof (cases "pendingRequestsRef s i")
    case None
    then show ?thesis using assms by (simp add: deliverPending_def Some)
  next
    case q: (Some q)
    have r: "deliverPending m s =
        s\<lparr>pendingRequestsRef := (pendingRequestsRef s)(i := None),
          settled := settled s @ [(q, outcomeOf m)]\<rparr>"
      by (simp add: deliverPending_def Some q Let_def)
    have "q \<noteq> p" using assms q by (auto simp: awaitingPage_def)
    moreover have "p \<notin> fst ` set (settled s)" using assms by (simp add: awaitingPage_def)
    ultimately have "p \<notin> fst ` set (settled (deliverPending m s))" by (simp add: r)
    then show ?thesis
      using assms by (rule awaitingPage_frame [rotated -1]) (simp_all add: r)
  qed
qed

lemma awaitingPage_queryTitleAndFavicon:
  assumes "awaitingPage ws n p method s"
  shows "awaitingPage ws n p method (queryTitleAndFavicon ws' s)"
proof -
  have "p \<notin> fst ` set (settled (queryTitleAndFavicon ws' s))"
    using assms
    by (simp add: awaitingPage_def queryTitleAndFavicon_def nextMessageId_def wsSend_def Let_def)
  then show ?thesis
    using assms
    by (rule awaitingPage_frame [rotated -1])
       (simp_all add: queryTitleAndFavicon_def nextMessageId_def wsSend_def Let_def)
qed

lemma filter_filter_disjoint:
  "(\<And>x. x \<in> set xs \<Longrightarrow> F x \<Longrightarrow> G x) \<Longrightarrow> filter F (filter G xs) = filter F xs"
  by (induction xs) auto

lemma awaitingPage_runPageListeners:
  assumes "awaitingPage ws n p method s" "\<not> concerns n (PageMessage ws' w isOpen)"
  shows "awaitingPage ws n p method (runPageListeners ws' w s)"
proof (cases w)
  case Malformed
  then show ?thesis using assms by (simp add: runPageListeners_def)
next
  case (Parsed m)
  show ?thesis
  proof (cases "msgId m")
    case None
    then show ?thesis using assms by (simp add: runPageListeners_def Parsed)
  next
    case (Some i)
    have ne: "i \<noteq> n" using assms(2) by (simp add: Parsed Some)
    let ?hit = "filter (\<lambda>l. plSocket l = ws' \<and> plId l = i) (pageListeners s)"
    have r: "runPageListeners ws' w s =
        s\<lparr>pageListeners := filter (\<lambda>l. \<not> (plSocket l = ws' \<and> plId l = i)) (pageListeners s),
          settled := settled s @ map (\<lambda>l. (plPromise l, outcomeOf m)) ?hit\<rparr>"
      by (simp add: runPageListeners_def Parsed Some Let_def)
    have other: "\<not> (plSocket l = ws' \<and> plId l = i)"
      if "l \<in> set (pageListeners s)" "plId l = n \<or> plPromise l = p" for l
      using awaitingPage_listener [OF assms(1) that] ne by simp
    then have "\<forall>l \<in> set ?hit. plPromise l \<noteq> p" by auto
    then have "p \<notin> fst ` set (map (\<lambda>l. (plPromise l, outcomeOf m)) ?hit)"
      by (auto simp: image_iff)
    moreover have "p \<notin> fst ` set (settled s)" using assms(1) by (simp add: awaitingPage_def)
    ultimately have u: "p \<notin> fst ` set (settled (runPageListeners ws' w s))"
      unfolding r by (simp add: image_Un)
    have f: "filter (\<lambda>l. plId l = n \<or> plPromise l = p)
        (filter (\<lambda>l. \<not> (plSocket l = ws' \<and> plId l = i)) (pageListeners s))
        = filter (\<lambda>l. plId l = n \<or> plPromise l = p) (pageListeners s)"
      using other by (intro filter_filter_disjoint) blast
    have pl: "pageListeners (runPageListeners ws' w s)
        = filter (\<lambda>l. \<not> (plSocket l = ws' \<and> plId l = i)) (pageListeners s)"
      by (simp add: r)
    have fl: "filter (\<lambda>l. plId l = n \<or> plPromise l = p) (pageListeners (runPageListeners ws' w s))
        = filter (\<lambda>l. plId l = n \<or> plPromise l = p) (pageListeners s)"
      unfolding pl by (rule f)
    have rest: "messageIdRef s \<le> messageIdRef (runPageListeners ws' w s)"
      "promises s \<le> promises (runPageListeners ws' w s)"
      "\<forall>i q. pendingRequestsRef (runPageListeners ws' w s) i = Some q \<longrightarrow> pendingRequestsRef s i = Some q"
      "set (sendTimers (runPageListeners ws' w s)) \<subseteq> set (sendTimers s)"
      "filter (\<lambda>t. ptId t = n \<or> ptPromise t = p) (pageTimers (runPageListeners ws' w s))
         = filter (\<lambda>t. ptId t = n \<or> ptPromise t = p) (pageTimers s)"
      by (simp_all add: r)
    show ?thesis
      by (rule awaitingPage_frame [OF assms(1) rest(1,2,3,4) fl rest(5) u])
  qed
qed

lemma awaitingPage_send:
  assumes "awaitingPage ws n p method s"
  shows "awaitingPage ws n p method (send wsRef meth pars s)"
proof -
  have ne: "messageIdRef s \<noteq> n" "promises s \<noteq> p" using assms by (auto simp: awaitingPage_def)
  show ?thesis
  proof (cases wsRef)
    case None
    have r: "send wsRef meth pars s =
        s\<lparr>promises := Suc (promises s),
          settled := settled s @ [(promises s, Rejected ''WebSocket not connected'')]\<rparr>"
      by (simp add: send_def None Let_def)
    have "p \<notin> fst ` set (settled (send wsRef meth pars s))"
      using assms ne by (simp add: r awaitingPage_def)
    then show ?thesis
      using assms by (rule awaitingPage_frame [rotated -1]) (simp_all add: r)
  next
    case (Some ws')
    have r: "send wsRef meth pars s =
        s\<lparr>promises := Suc (promises s), messageIdRef := messageIdRef s + 1,
          pendingRequestsRef := (pendingRequestsRef s)(messageIdRef s \<mapsto> promises s),
          sendTimers := sendTimers s @
            [\<lparr> stId = messageIdRef s, stMethod = meth, stPromise = promises s, stDelay = 30000 \<rparr>],
          sent := sent s @ [\<lparr> outSocket = ws', outId = messageIdRef s, outMethod = meth,
                             outParams = pars, outShared = True \<rparr>]\<rparr>"
      by (simp add: send_def Some Let_def nextMessageId_def wsSend_def)
    show ?thesis
      using assms ne unfolding r awaitingPage_def by simp
  qed
qed

lemma awaitingPage_executeCommand:
  assumes "awaitingPage ws n p method s"
  shows "awaitingPage ws n p method (executeCommand ws' meth pars s)"
proof -
  have ne: "messageIdRef s \<noteq> n" "promises s \<noteq> p" using assms by (auto simp: awaitingPage_def)
  have r: "executeCommand ws' meth pars s =
      s\<lparr>promises := Suc (promises s), messageIdRef := messageIdRef s + 1,
        pageListeners := pageListeners s @
          [\<lparr> plSocket = ws', plId = messageIdRef s, plPromise = promises s \<rparr>],
        sent := sent s @ [\<lparr> outSocket = ws', outId = messageIdRef s, outMethod = meth,
                           outParams = pars, outShared = True \<rparr>],
        pageTimers := pageTimers s @
          [\<lparr> ptSocket = ws', ptId = messageIdRef s, ptMethod = meth, ptPromise = promises s,
             ptDelay = 30000 \<rparr>]\<rparr>"
    by (simp add: executeCommand_def Let_def nextMessageId_def wsSend_def)
  show ?thesis
    using assms ne unfolding r awaitingPage_def by simp
qed

lemma awaitingPage_sendTimeout:
  assumes "awaitingPage ws n p method s"
  shows "awaitingPage ws n p method (sendTimeoutFires i s)"
proof (cases "find (\<lambda>t. stId t = i) (sendTimers s)")
  case None
  then show ?thesis using assms by (simp add: sendTimeoutFires_def)
next
  case (Some t)
  have "t \<in> set (sendTimers s)" using find_SomeD [OF Some] by simp
  then have np: "stPromise t \<noteq> p" using assms by (simp add: awaitingPage_def)
  have u: "p \<notin> fst ` set (settled s)" using assms by (simp add: awaitingPage_def)
  show ?thesis
  proof (cases "pendingRequestsRef s (stId t)")
    case None
    have r: "sendTimeoutFires i s = s\<lparr>sendTimers := remove1 t (sendTimers s)\<rparr>"
      by (simp add: sendTimeoutFires_def Some None Let_def)
    have "p \<notin> fst ` set (settled (sendTimeoutFires i s))" using u by (simp add: r)
    then show ?thesis
      using assms by (rule awaitingPage_frame [rotated -1]) (simp_all add: r set_remove1_subset)
  next
    case q: (Some q)
    have r: "sendTimeoutFires i s =
        s\<lparr>sendTimers := remove1 t (sendTimers s),
          pendingRequestsRef := (pendingRequestsRef s)(stId t := None),
          settled := settled s @ [(stPromise t, Rejected (''CDP command timeout: '' @ stMethod t))]\<rparr>"
      by (simp add: sendTimeoutFires_def Some q Let_def)
    have "p \<notin> fst ` set (settled (sendTimeoutFires i s))" using u np by (simp add: r)
    then show ?thesis
      using assms by (rule awaitingPage_frame [rotated -1]) (simp_all add: r set_remove1_subset)
  qed
qed

lemma awaitingPage_pageTimeout_other:
  assumes "awaitingPage ws n p method s" "i \<noteq> n"
  shows "awaitingPage ws n p method (pageTimeoutFires i s)"
proof (cases "find (\<lambda>t. ptId t = i) (pageTimers s)")
  case None
  then show ?thesis using assms by (simp add: pageTimeoutFires_def)
next
  case (Some t)
  have t: "ptId t = i" "t \<in> set (pageTimers s)" using find_SomeD [OF Some] by simp_all
  have nT: "\<not> (ptId t = n \<or> ptPromise t = p)"
  proof
    assume "ptId t = n \<or> ptPromise t = p"
    then have "t = \<lparr> ptSocket = ws, ptId = n, ptMethod = method, ptPromise = p, ptDelay = 30000 \<rparr>"
      using awaitingPage_timer [OF assms(1) t(2)] by blast
    then show False using t(1) assms(2) by simp
  qed
  let ?l = "\<lparr> plSocket = ptSocket t, plId = ptId t, plPromise = ptPromise t \<rparr>"
  have nL: "\<not> (plId ?l = n \<or> plPromise ?l = p)" using nT by simp
  have r: "pageTimeoutFires i s =
      s\<lparr>pageTimers := remove1 t (pageTimers s),
        pageListeners := remove1 ?l (pageListeners s),
        settled := settled s @ [(ptPromise t, Rejected (''Page CDP command timeout: '' @ ptMethod t))]\<rparr>"
    by (simp add: pageTimeoutFires_def Some)
  have ft: "filter (\<lambda>t. ptId t = n \<or> ptPromise t = p) (pageTimers (pageTimeoutFires i s))
      = filter (\<lambda>t. ptId t = n \<or> ptPromise t = p) (pageTimers s)"
    using filter_remove1_other [of "\<lambda>t. ptId t = n \<or> ptPromise t = p" t "pageTimers s"] nT
    by (simp add: r)
  have fl: "filter (\<lambda>l. plId l = n \<or> plPromise l = p) (pageListeners (pageTimeoutFires i s))
      = filter (\<lambda>l. plId l = n \<or> plPromise l = p) (pageListeners s)"
    using filter_remove1_other [of "\<lambda>l. plId l = n \<or> plPromise l = p" ?l "pageListeners s"] nL
    by (simp add: r)
  have u: "p \<notin> fst ` set (settled (pageTimeoutFires i s))"
    using assms(1) nT by (simp add: r awaitingPage_def)
  have rest: "messageIdRef s \<le> messageIdRef (pageTimeoutFires i s)"
    "promises s \<le> promises (pageTimeoutFires i s)"
    "\<forall>j q. pendingRequestsRef (pageTimeoutFires i s) j = Some q \<longrightarrow> pendingRequestsRef s j = Some q"
    "set (sendTimers (pageTimeoutFires i s)) \<subseteq> set (sendTimers s)"
    by (simp_all add: r)
  show ?thesis
    by (rule awaitingPage_frame [OF assms(1) rest fl ft u])
qed

lemma awaitingPage_counter:
  assumes "awaitingPage ws n p method s"
  shows "awaitingPage ws n p method (wsSend ws' i meth pars shared (s\<lparr>messageIdRef := messageIdRef s + 1\<rparr>))"
proof -
  have "p \<notin> fst ` set (settled (wsSend ws' i meth pars shared (s\<lparr>messageIdRef := messageIdRef s + 1\<rparr>)))"
    using assms by (simp add: awaitingPage_def wsSend_def)
  then show ?thesis
    using assms by (rule awaitingPage_frame [rotated -1]) (simp_all add: wsSend_def)
qed

lemma awaitingPage_step:
  assumes "awaitingPage ws n p method s" "\<not> concerns n e"
  shows "awaitingPage ws n p method (bridgeStep s e)"
proof (cases e)
  case (Send wsRef meth pars)
  then show ?thesis using assms by (simp add: awaitingPage_send)
next
  case (ControlMessage w)
  then show ?thesis
    using assms by (cases w) (simp_all add: controlOnMessage_def awaitingPage_deliverPending)
next
  case (SendTimeout i)
  then show ?thesis using assms by (simp add: awaitingPage_sendTimeout)
next
  case (ControlOpen ws')
  then show ?thesis
    using awaitingPage_counter [OF assms(1)] by (simp add: controlOnOpen_def nextMessageId_def)
next
  case (KeepAlive openWs)
  then show ?thesis
    using assms(1) awaitingPage_counter [OF assms(1)]
    by (cases openWs) (simp_all add: keepAlive_def nextMessageId_def)
next
  case (PageOpen ws')
  have "p \<notin> fst ` set (settled (pageOnOpen ws' s))"
    using assms(1) by (simp add: awaitingPage_def pageOnOpen_def wsSend_def Let_def)
  then have "awaitingPage ws n p method (pageOnOpen ws' s)"
    using assms(1)
    by (rule awaitingPage_frame [rotated -1]) (simp_all add: pageOnOpen_def wsSend_def Let_def)
  then show ?thesis by (simp add: PageOpen)
next
  case (PageMessage ws' w isOpen)
  have a: "awaitingPage ws n p method (pageOnMessage ws' w isOpen s)"
    using assms(1)
    by (cases w)
       (simp_all add: pageOnMessage_def Let_def awaitingPage_deliverPending
          awaitingPage_queryTitleAndFavicon)
  show ?thesis
    using awaitingPage_runPageListeners [OF a, of ws' w isOpen] assms(2)
    by (simp add: PageMessage)
next
  case (ExecuteCommand pageWs meth pars)
  then show ?thesis using assms by (simp add: awaitingPage_executeCommand)
next
  case (PageTimeout i)
  then show ?thesis using assms by (simp add: awaitingPage_pageTimeout_other)
next
  case (DelayedQuery openWs)
  then show ?thesis
    using assms by (cases openWs) (simp_all add: delayedQuery_def awaitingPage_queryTitleAndFavicon)
qed

lemma awaitingPage_run:
  "awaitingPage ws n p method s \<Longrightarrow> \<forall>e \<in> set evs. \<not> concerns n e \<Longrightarrow>
   awaitingPage ws n p method (bridgeRun s evs)"
  by (induction evs rule: rev_induct) (simp_all add: bridgeRun_snoc awaitingPage_step, simp add: bridgeRun_def)

lemma awaitingPage_after_executeCommand:
  assumes "reachInv s"
  shows "awaitingPage ws (messageIdRef s) (promises s) method (executeCommand ws method pars s)"
proof -
  have r: "executeCommand ws method pars s =
      s\<lparr>promises := Suc (promises s), messageIdRef := messageIdRef s + 1,
        pageListeners := pageListeners s @
          [\<lparr> plSocket = ws, plId = messageIdRef s, plPromise = promises s \<rparr>],
        sent := sent s @ [\<lparr> outSocket = ws, outId = messageIdRef s, outMethod = method,
                           outParams = pars, outShared = True \<rparr>],
        pageTimers := pageTimers s @
          [\<lparr> ptSocket = ws, ptId = messageIdRef s, ptMethod = method, ptPromise = promises s,
             ptDelay = 30000 \<rparr>]\<rparr>"
    by (simp add: executeCommand_def Let_def nextMessageId_def wsSend_def)
  have l: "filter (\<lambda>l. plId l = messageIdRef s \<or> plPromise l = promises s) (pageListeners s) = []"
    using assms by (auto simp: reachInv_def filter_empty_conv)
  have t: "filter (\<lambda>t. ptId t = messageIdRef s \<or> ptPromise t = promises s) (pageTimers s) = []"
    using assms by (auto simp: reachInv_def filter_empty_conv)
  have u: "promises s \<notin> fst ` set (settled s)"
    using assms by (auto simp: reachInv_def)
  have pn: "pendingRequestsRef s (messageIdRef s) = None"
    using assms by (cases "pendingRequestsRef s (messageIdRef s)") (auto simp: reachInv_def)
  have pp: "\<forall>i. pendingRequestsRef s i \<noteq> Some (promises s)"
    using assms by (auto simp: reachInv_def)
  have st: "\<forall>t \<in> set (sendTimers s). stId t \<noteq> messageIdRef s \<and> stPromise t \<noteq> promises s"
    using assms by (auto simp: reachInv_def)
  show ?thesis
    unfolding r awaitingPage_def using l t u pn pp st by simp
qed

lemma awaitingPage_timer_found:
  assumes "awaitingPage ws n p method s"
  shows "find (\<lambda>t. ptId t = n) (pageTimers s)
       = Some \<lparr> ptSocket = ws, ptId = n, ptMethod = method, ptPromise = p, ptDelay = 30000 \<rparr>"
proof -
  let ?T = "\<lparr> ptSocket = ws, ptId = n, ptMethod = method, ptPromise = p, ptDelay = 30000 \<rparr>"
  let ?F = "\<lambda>t. ptId t = n \<or> ptPromise t = p"
  have f: "filter ?F (pageTimers s) = [?T]" using assms by (simp add: awaitingPage_def)
  then have "?T \<in> set (filter ?F (pageTimers s))" by simp
  then have "?T \<in> set (pageTimers s)" by simp
  then obtain t where t: "find (\<lambda>t. ptId t = n) (pageTimers s) = Some t"
    by (cases "find (\<lambda>t. ptId t = n) (pageTimers s)") (auto simp: find_None_iff)
  have "ptId t = n" "t \<in> set (pageTimers s)" using find_SomeD [OF t] by simp_all
  then have "t = ?T" using awaitingPage_timer [OF assms] by blast
  then show ?thesis using t by simp
qed

lemma awaitingPage_timeout:
  assumes "awaitingPage ws n p method s"
  shows "settled (pageTimeoutFires n s)
           = settled s @ [(p, Rejected (''Page CDP command timeout: '' @ method))]"
    and "pageListeners (pageTimeoutFires n s)
           = remove1 \<lparr> plSocket = ws, plId = n, plPromise = p \<rparr> (pageListeners s)"
    and "forgotten n p (pageTimeoutFires n s)"
proof -
  let ?T = "\<lparr> ptSocket = ws, ptId = n, ptMethod = method, ptPromise = p, ptDelay = 30000 \<rparr>"
  let ?L = "\<lparr> plSocket = ws, plId = n, plPromise = p \<rparr>"
  have r: "pageTimeoutFires n s =
      s\<lparr>pageTimers := remove1 ?T (pageTimers s),
        pageListeners := remove1 ?L (pageListeners s),
        settled := settled s @ [(p, Rejected (''Page CDP command timeout: '' @ method))]\<rparr>"
    by (simp add: pageTimeoutFires_def awaitingPage_timer_found [OF assms])
  show "settled (pageTimeoutFires n s)
      = settled s @ [(p, Rejected (''Page CDP command timeout: '' @ method))]"
    by (simp add: r)
  show "pageListeners (pageTimeoutFires n s) = remove1 ?L (pageListeners s)"
    by (simp add: r)
  have "filter (\<lambda>t. ptId t = n \<or> ptPromise t = p) (remove1 ?T (pageTimers s))
      = remove1 ?T (filter (\<lambda>t. ptId t = n \<or> ptPromise t = p) (pageTimers s))"
    by (rule filter_remove1)
  also have "\<dots> = []" using assms by (simp add: awaitingPage_def)
  finally have t: "\<forall>t \<in> set (remove1 ?T (pageTimers s)). ptId t \<noteq> n \<and> ptPromise t \<noteq> p"
    by (simp add: filter_empty_conv)
  have "filter (\<lambda>l. plId l = n \<or> plPromise l = p) (remove1 ?L (pageListeners s))
      = remove1 ?L (filter (\<lambda>l. plId l = n \<or> plPromise l = p) (pageListeners s))"
    by (rule filter_remove1)
  also have "\<dots> = []" using assms by (simp add: awaitingPage_def)
  finally have l: "\<forall>l \<in> set (remove1 ?L (pageListeners s)). plId l \<noteq> n \<and> plPromise l \<noteq> p"
    by (simp add: filter_empty_conv)
  have rest: "n < messageIdRef s" "p < promises s" "pendingRequestsRef s n = None"
    "\<forall>i. pendingRequestsRef s i \<noteq> Some p"
    "\<forall>t \<in> set (sendTimers s). stId t \<noteq> n \<and> stPromise t \<noteq> p"
    using assms by (simp_all add: awaitingPage_def)
  show "forgotten n p (pageTimeoutFires n s)"
    unfolding r forgotten_def using t l rest by simp
qed

subsection \<open>Properties of the bridge\<close>




text \<open>
  The bound on the shared counter cannot be dropped from the property above. After 999
  commands the shared counter stands at 1000, where the ids of the set-up commands begin,
  and the keep-alive ping sent on a page connection that has just opened carries the id
  1000 a second time on that connection.
\<close>

lemma setup_ids_reached_by_shared_counter:
  "messageIdRef (bridgeRun initialBridge (replicate 999 (KeepAlive (Some 0)))) = 1000 \<and>
   idsOn (bridgeRun initialBridge (replicate 999 (KeepAlive (Some 0)) @ [PageOpen 1, KeepAlive (Some 1)])) 1
     = [1000, 1001, 1002, 1000]"
proof -
  have c: "messageIdRef (bridgeRun initialBridge (replicate 999 (KeepAlive (Some 0)))) = 1000"
    unfolding keepAlive_replicate by (simp add: initialBridge_def)
  have "bridgeRun initialBridge (replicate 999 (KeepAlive (Some 0)) @ [PageOpen 1, KeepAlive (Some 1)])
      = bridgeRun (bridgeRun initialBridge (replicate 999 (KeepAlive (Some 0)))) [PageOpen 1, KeepAlive (Some 1)]"
    by (simp add: bridgeRun_def)
  then have b: "idsOn (bridgeRun initialBridge (replicate 999 (KeepAlive (Some 0)) @ [PageOpen 1, KeepAlive (Some 1)])) 1
      = [1000, 1001, 1002, 1000]"
    unfolding keepAlive_replicate
    by (simp add: bridgeRun_def initialBridge_def pageOnOpen_def keepAlive_def nextMessageId_def
        wsSend_def Let_def idsOn_def filter_map comp_def)
  show ?thesis using b c by simp
qed

text \<open>
  Claim C2. Let a command be sent with \<open>send\<close> on the open control connection in any
  reachable state of the bridge; it goes out with the next id \<open>N\<close> of the shared counter.
  Let any events follow that carry no message with the id \<open>N\<close> and are not the timer of
  the command: further commands, responses to other commands in any order, events
  without an id, messages that do not parse, keep-alive pings, on the control connection
  and on page connections. The command is then still pending under \<open>N\<close> and its promise has
  not been settled. A message with the id \<open>N\<close> on the control connection then removes
  exactly the entry \<open>N\<close> from the map of pending commands and settles exactly the promise
  of that command: it rejects with the error's message when the message has an error,
  and resolves with the result (the empty object when there is none) otherwise.
\<close>

theorem response_settles_command_by_id:
  assumes "s0 = bridgeRun initialBridge before"
      and "s1 = send (Some ws) method params s0"
      and "\<forall>e \<in> set stream. \<not> concerns (messageIdRef s0) e"
      and "s2 = bridgeRun s1 stream"
      and "msgId m = Some (messageIdRef s0)"
  shows "sent s1 = sent s0 @ [\<lparr> outSocket = ws, outId = messageIdRef s0, outMethod = method,
                                outParams = params, outShared = True \<rparr>] \<and>
         pendingRequestsRef s2 (messageIdRef s0) = Some (promises s0) \<and>
         settlementsOf (promises s0) s2 = [] \<and>
         pendingRequestsRef (controlOnMessage (Parsed m) s2)
           = (pendingRequestsRef s2)(messageIdRef s0 := None) \<and>
         settled (controlOnMessage (Parsed m) s2)
           = settled s2 @
               [(promises s0,
                 case msgError m of
                   Some e \<Rightarrow> Rejected (errMessage e)
                 | None \<Rightarrow> Resolved (case msgResult m of None \<Rightarrow> [] | Some r \<Rightarrow> r))]"
proof -
  have r: "reachInv s0"
    unfolding assms(1) using reachInv_initial by (rule reachInv_run)
  have "awaiting (messageIdRef s0) (promises s0) method s1"
    unfolding assms(2) using r by (rule awaiting_after_send)
  then have a: "awaiting (messageIdRef s0) (promises s0) method s2"
    unfolding assms(4) using assms(3) by (rule awaiting_run)
  have p: "pendingRequestsRef s2 (messageIdRef s0) = Some (promises s0)"
    using a by (simp add: awaiting_def)
  have n: "settlementsOf (promises s0) s2 = []"
    using a by (rule awaiting_unsettled)
  have s: "sent s1 = sent s0 @ [\<lparr> outSocket = ws, outId = messageIdRef s0, outMethod = method,
                                   outParams = params, outShared = True \<rparr>]"
    by (simp add: assms(2) send_def nextMessageId_def wsSend_def Let_def)
  show ?thesis
    using p n s assms(5)
    by (simp add: controlOnMessage_def deliverPending_def outcomeOf_def Let_def)
qed

theorem response_settles_command_by_id_witness:
  "settled (controlOnMessage (Parsed navigateResponse) (bridgeRun navigateSent otherTraffic))
     = [(1, Resolved []), (0, Resolved [(''frameId'', ''f1'')])] \<and>
   pendingRequestsRef (controlOnMessage (Parsed navigateResponse) (bridgeRun navigateSent otherTraffic)) 7
     = None"
proof -
  have h3: "\<forall>e \<in> set otherTraffic. \<not> concerns (messageIdRef (bridgeRun initialBridge sixCommands)) e"
    using otherTraffic_unconcerned by (simp add: sixCommands_counters)
  have h5: "msgId navigateResponse = Some (messageIdRef (bridgeRun initialBridge sixCommands))"
    by (simp add: navigateResponse_def sixCommands_counters)
  have s2: "settled (bridgeRun navigateSent otherTraffic) = [(1, Resolved [])]"
    by (simp add: navigateSent_def otherTraffic_def sixCommands_def bridge_eval)
  show ?thesis
    using response_settles_command_by_id [OF refl navigateSent_def h3 refl h5] s2
    by (simp add: sixCommands_counters navigateResponse_def)
qed

text \<open>
  Claim C3. Let a command be sent in any reachable state of the bridge, with \<open>send\<close> on
  the open control connection or with \<open>executeCommand\<close> of \<open>sendToPage\<close> on a page
  connection: a timer of 30000 ms is set for it. Let its response never arrive before
  the timer runs, whatever else happens meanwhile. The timer then rejects the command's
  promise with the time-out error and removes what was kept for the command: its entry
  in the map of pending commands for \<open>send\<close>, its message listener for \<open>executeCommand\<close>.
  Whatever happens later, that rejection remains the only call that ever settled the
  promise and the id stays absent from the map; the timer does nothing when run again,
  and a response with the command's id, on the control connection or on a page
  connection, leaves the whole state as it was.
\<close>

theorem command_timeout_rejects_once:
  assumes "s0 = bridgeRun initialBridge before"
      and "\<forall>e \<in> set stream. \<not> concerns (messageIdRef s0) e"
      and "msgId m = Some (messageIdRef s0)" and "msgMethod m = None"
      and "s1 = send (Some ws) method params s0"
      and "s2 = bridgeRun s1 stream"
      and "s3 = sendTimeoutFires (messageIdRef s0) s2"
      and "s4 = bridgeRun s3 later"
      and "t1 = executeCommand pageWs method params s0"
      and "t2 = bridgeRun t1 stream"
      and "t3 = pageTimeoutFires (messageIdRef s0) t2"
      and "t4 = bridgeRun t3 later"
  shows "(sendTimers s1 = sendTimers s0 @
            [\<lparr> stId = messageIdRef s0, stMethod = method, stPromise = promises s0, stDelay = 30000 \<rparr>] \<and>
          pendingRequestsRef s2 (messageIdRef s0) = Some (promises s0) \<and>
          settlementsOf (promises s0) s2 = [] \<and>
          settled s3 = settled s2 @ [(promises s0, Rejected (''CDP command timeout: '' @ method))] \<and>
          pendingRequestsRef s3 = (pendingRequestsRef s2)(messageIdRef s0 := None) \<and>
          pendingRequestsRef s4 (messageIdRef s0) = None \<and>
          settlementsOf (promises s0) s4
            = [(promises s0, Rejected (''CDP command timeout: '' @ method))] \<and>
          bridgeStep s4 (SendTimeout (messageIdRef s0)) = s4 \<and>
          bridgeStep s4 (ControlMessage (Parsed m)) = s4 \<and>
          bridgeStep s4 (PageMessage ws' (Parsed m) isOpen) = s4) \<and>
         (pageTimers t1 = pageTimers s0 @
            [\<lparr> ptSocket = pageWs, ptId = messageIdRef s0, ptMethod = method,
               ptPromise = promises s0, ptDelay = 30000 \<rparr>] \<and>
          pageListeners t1 = pageListeners s0 @
            [\<lparr> plSocket = pageWs, plId = messageIdRef s0, plPromise = promises s0 \<rparr>] \<and>
          settlementsOf (promises s0) t2 = [] \<and>
          settled t3 = settled t2 @ [(promises s0, Rejected (''Page CDP command timeout: '' @ method))] \<and>
          pageListeners t3 =
            remove1 \<lparr> plSocket = pageWs, plId = messageIdRef s0, plPromise = promises s0 \<rparr>
              (pageListeners t2) \<and>
          settlementsOf (promises s0) t4
            = [(promises s0, Rejected (''Page CDP command timeout: '' @ method))] \<and>
          bridgeStep t4 (PageTimeout (messageIdRef s0)) = t4 \<and>
          bridgeStep t4 (PageMessage ws' (Parsed m) isOpen) = t4 \<and>
          bridgeStep t4 (ControlMessage (Parsed m)) = t4)"
proof (rule conjI)
  let ?n = "messageIdRef s0" and ?p = "promises s0"
  have r: "reachInv s0"
    unfolding assms(1) using reachInv_initial by (rule reachInv_run)
  have "awaiting ?n ?p method s1"
    unfolding assms(5) using r by (rule awaiting_after_send)
  then have a: "awaiting ?n ?p method s2"
    unfolding assms(6) using assms(2) by (rule awaiting_run)
  note t = awaiting_timeout [OF a, folded assms(7)]
  have n2: "settlementsOf ?p s2 = []"
    using a by (rule awaiting_unsettled)
  have s3: "settlementsOf ?p s3 = [(?p, Rejected (''CDP command timeout: '' @ method))]"
    using n2 by (simp add: t(1) settlementsOf_def)
  note f = forgotten_run [OF t(2), of later, folded assms(8)]
  have f4: "forgotten ?n ?p s4" using f by simp
  have timers: "sendTimers s1 = sendTimers s0 @
      [\<lparr> stId = ?n, stMethod = method, stPromise = ?p, stDelay = 30000 \<rparr>]"
    by (simp add: assms(5) send_def nextMessageId_def wsSend_def Let_def)
  have gone: "find (\<lambda>t. stId t = ?n) (sendTimers s4) = None"
    using f4 by (auto simp: forgotten_def find_None_iff)
  have p2: "pendingRequestsRef s2 ?n = Some ?p" using a by (simp add: awaiting_def)
  have p4: "pendingRequestsRef s4 ?n = None" using f4 by (simp add: forgotten_def)
  have set3: "settled s3 = settled s2 @ [(?p, Rejected (''CDP command timeout: '' @ method))]"
    and pend3: "pendingRequestsRef s3 = (pendingRequestsRef s2)(?n := None)"
    by (simp_all add: t(1))
  have once: "settlementsOf ?p s4 = [(?p, Rejected (''CDP command timeout: '' @ method))]"
    using f s3 by simp
  have again: "bridgeStep s4 (SendTimeout ?n) = s4"
    by (simp add: sendTimeoutFires_def gone)
  note late = forgotten_late_response [OF f4 assms(3,4)]
  show "sendTimers s1 = sendTimers s0 @
            [\<lparr> stId = messageIdRef s0, stMethod = method, stPromise = promises s0, stDelay = 30000 \<rparr>] \<and>
          pendingRequestsRef s2 (messageIdRef s0) = Some (promises s0) \<and>
          settlementsOf (promises s0) s2 = [] \<and>
          settled s3 = settled s2 @ [(promises s0, Rejected (''CDP command timeout: '' @ method))] \<and>
          pendingRequestsRef s3 = (pendingRequestsRef s2)(messageIdRef s0 := None) \<and>
          pendingRequestsRef s4 (messageIdRef s0) = None \<and>
          settlementsOf (promises s0) s4
            = [(promises s0, Rejected (''CDP command timeout: '' @ method))] \<and>
          bridgeStep s4 (SendTimeout (messageIdRef s0)) = s4 \<and>
          bridgeStep s4 (ControlMessage (Parsed m)) = s4 \<and>
          bridgeStep s4 (PageMessage ws' (Parsed m) isOpen) = s4"
    using timers p2 n2 set3 pend3 p4 once again late by simp
next
  let ?n = "messageIdRef s0" and ?p = "promises s0"
  have r: "reachInv s0"
    unfolding assms(1) using reachInv_initial by (rule reachInv_run)
  have "awaitingPage pageWs ?n ?p method t1"
    unfolding assms(9) using r by (rule awaitingPage_after_executeCommand)
  then have a: "awaitingPage pageWs ?n ?p method t2"
    unfolding assms(10) using assms(2) by (rule awaitingPage_run)
  note t = awaitingPage_timeout [OF a, folded assms(11)]
  have n2: "settlementsOf ?p t2 = []"
    using a by (rule awaitingPage_unsettled)
  have s3: "settlementsOf ?p t3 = [(?p, Rejected (''Page CDP command timeout: '' @ method))]"
    using n2 by (simp add: t(1) settlementsOf_def)
  note f = forgotten_run [OF t(3), of later, folded assms(12)]
  have f4: "forgotten ?n ?p t4" using f by simp
  have made: "pageTimers t1 = pageTimers s0 @
        [\<lparr> ptSocket = pageWs, ptId = ?n, ptMethod = method, ptPromise = ?p, ptDelay = 30000 \<rparr>]"
      "pageListeners t1 = pageListeners s0 @ [\<lparr> plSocket = pageWs, plId = ?n, plPromise = ?p \<rparr>]"
    by (simp_all add: assms(9) executeCommand_def nextMessageId_def wsSend_def Let_def)
  have gone: "find (\<lambda>t. ptId t = ?n) (pageTimers t4) = None"
    using f4 by (auto simp: forgotten_def find_None_iff)
  have once: "settlementsOf ?p t4 = [(?p, Rejected (''Page CDP command timeout: '' @ method))]"
    using f s3 by simp
  have again: "bridgeStep t4 (PageTimeout ?n) = t4"
    by (simp add: pageTimeoutFires_def gone)
  note late = forgotten_late_response [OF f4 assms(3,4)]
  show "pageTimers t1 = pageTimers s0 @
            [\<lparr> ptSocket = pageWs, ptId = messageIdRef s0, ptMethod = method,
               ptPromise = promises s0, ptDelay = 30000 \<rparr>] \<and>
          pageListeners t1 = pageListeners s0 @
            [\<lparr> plSocket = pageWs, plId = messageIdRef s0, plPromise = promises s0 \<rparr>] \<and>
          settlementsOf (promises s0) t2 = [] \<and>
          settled t3 = settled t2 @ [(promises s0, Rejected (''Page CDP command timeout: '' @ method))] \<and>
          pageListeners t3 =
            remove1 \<lparr> plSocket = pageWs, plId = messageIdRef s0, plPromise = promises s0 \<rparr>
              (pageListeners t2) \<and>
          settlementsOf (promises s0) t4
            = [(promises s0, Rejected (''Page CDP command timeout: '' @ method))] \<and>
          bridgeStep t4 (PageTimeout (messageIdRef s0)) = t4 \<and>
          bridgeStep t4 (PageMessage ws' (Parsed m) isOpen) = t4 \<and>
          bridgeStep t4 (ControlMessage (Parsed m)) = t4"
    using made n2 t(1,2) once again late by simp
qed

theorem command_timeout_rejects_once_witness:
  "settlementsOf 0
     (bridgeRun (sendTimeoutFires 7 (bridgeRun navigateSent otherTraffic)) afterTimeout)
     = [(0, Rejected ''CDP command timeout: Page.navigate'')] \<and>
   bridgeStep (bridgeRun (sendTimeoutFires 7 (bridgeRun navigateSent otherTraffic)) afterTimeout)
     (ControlMessage (Parsed navigateResponse))
     = bridgeRun (sendTimeoutFires 7 (bridgeRun navigateSent otherTraffic)) afterTimeout \<and>
   settlementsOf 0
     (bridgeRun (pageTimeoutFires 7 (bridgeRun pageNavigateSent otherTraffic)) afterTimeout)
     = [(0, Rejected ''Page CDP command timeout: Page.navigate'')] \<and>
   bridgeStep (bridgeRun (pageTimeoutFires 7 (bridgeRun pageNavigateSent otherTraffic)) afterTimeout)
     (PageMessage 1 (Parsed navigateResponse) True)
     = bridgeRun (pageTimeoutFires 7 (bridgeRun pageNavigateSent otherTraffic)) afterTimeout"
proof -
  have h2: "\<forall>e \<in> set otherTraffic. \<not> concerns (messageIdRef (bridgeRun initialBridge sixCommands)) e"
    using otherTraffic_unconcerned by (simp add: sixCommands_counters)
  have h3: "msgId navigateResponse = Some (messageIdRef (bridgeRun initialBridge sixCommands))"
    by (simp add: navigateResponse_def sixCommands_counters)
  have h4: "msgMethod navigateResponse = None" by (simp add: navigateResponse_def)
  have h7: "sendTimeoutFires 7 (bridgeRun navigateSent otherTraffic)
      = sendTimeoutFires (messageIdRef (bridgeRun initialBridge sixCommands))
          (bridgeRun navigateSent otherTraffic)"
    by (simp add: sixCommands_counters)
  have h11: "pageTimeoutFires 7 (bridgeRun pageNavigateSent otherTraffic)
      = pageTimeoutFires (messageIdRef (bridgeRun initialBridge sixCommands))
          (bridgeRun pageNavigateSent otherTraffic)"
    by (simp add: sixCommands_counters)
  have n: "navigateSent = send (Some 0) ''Page.navigate'' (Some [(''url'', ''https://x'')])
      (bridgeRun initialBridge sixCommands)"
    by (simp add: navigateSent_def)
  have pn: "pageNavigateSent = executeCommand 1 ''Page.navigate'' (Some [(''url'', ''https://x'')])
      (bridgeRun initialBridge sixCommands)"
    by (simp add: pageNavigateSent_def)
  show ?thesis
    using command_timeout_rejects_once [OF refl h2 h3 h4 n refl h7 refl pn refl h11 refl,
        of afterTimeout 1 True]
    by (simp add: sixCommands_counters)
qed

end
